theory Spec2Isabelle
  imports Complex_Main
begin

section \<open>Data model\<close>

text \<open>
  The module \<^verbatim>\<open>delay.py\<close> works on pandas tables whose cells are numbers. A table is
  modelled column-wise: the row labels (\<open>index\<close>) and a dictionary from column name to
  the column's values, one per row. Cells are real numbers; a cell of the program holds a
  finite 64-bit float, which is one of them. The two numeric functions are given twice:
  \<open>get_t_pre_ms\<close> and \<open>get_delays\<close> read the source's formula in exact arithmetic
  (which expression is computed, on which rows), and \<open>get_t_pre_ms_f64\<close> and
  \<open>get_delays_f64\<close> evaluate it in binary64, with rounding, underflow to zero, overflow
  to infinity and NaN. Statements about the sign and the order of the results are made
  about the binary64 functions.
\<close>

record frame =
  index :: "int list"
  cols :: "string \<rightharpoonup> real list"

text \<open>Every column of a pandas table has one value per row label.\<close>

definition wf_frame :: "frame \<Rightarrow> bool" where
  "wf_frame df = (\<forall>c v. cols df c = Some v \<longrightarrow> length v = length (index df))"

text \<open>The exceptions the module can end with; a failure of the external engine is opaque.\<close>

datatype exn = KeyError string | ValueError | EngineFailure

text \<open>\<^verbatim>\<open>df[c].values\<close>: the values of column \<open>c\<close>, or \<^verbatim>\<open>KeyError\<close>.\<close>

definition getitem :: "frame \<Rightarrow> string \<Rightarrow> exn + real list" where
  "getitem df c = (case cols df c of None \<Rightarrow> Inl (KeyError c) | Some v \<Rightarrow> Inr v)"

section \<open>Timescale estimator and delay calculator\<close>




section \<open>The estimator and the delays in binary64\<close>

text \<open>
  numpy evaluates the expressions of the source in IEEE 754 binary64. A value is a
  finite number, an infinity or NaN; the two zeros are not told apart.
\<close>

datatype f64 = Fin real | PInf | NInf | NaN

text \<open>
  Rounding to the nearest integer, ties to the even one.
\<close>

definition rne :: "real \<Rightarrow> int" where
  "rne x =
     (if x - of_int \<lfloor>x\<rfloor> < 1 / 2 then \<lfloor>x\<rfloor>
      else if 1 / 2 < x - of_int \<lfloor>x\<rfloor> then \<lfloor>x\<rfloor> + 1
      else if even \<lfloor>x\<rfloor> then \<lfloor>x\<rfloor> else \<lfloor>x\<rfloor> + 1)"

text \<open>
  The spacing of the binary64 numbers around a positive real: 52 bits below its
  binary exponent, and that of the least normal number in the subnormal range.
\<close>

definition f64_quantum :: "real \<Rightarrow> real" where
  "f64_quantum x = 2 powr (of_int (max \<lfloor>log 2 x\<rfloor> (- 1022)) - 52)"

text \<open>
  A positive real rounded to the nearest multiple of the spacing (ties to even).
\<close>

definition round_pos :: "real \<Rightarrow> real" where
  "round_pos x = of_int (rne (x / f64_quantum x)) * f64_quantum x"

text \<open>
  Rounding a real to binary64: a result of magnitude \<open>2 ^ 1024\<close> or more is an
  infinity, and a real below half the least subnormal rounds to zero.
\<close>

definition f64_huge :: real where
  "f64_huge = 2 ^ 1024"

definition f64_of_real :: "real \<Rightarrow> f64" where
  "f64_of_real x =
     (if x = 0 then Fin 0
      else if 0 < x then (if round_pos x < f64_huge then Fin (round_pos x) else PInf)
      else (if round_pos (- x) < f64_huge then Fin (- round_pos (- x)) else NInf))"

text \<open>
  The comparisons \<^verbatim>\<open><=\<close> and \<^verbatim>\<open><\<close> of two binary64 values; any comparison with NaN
  is false.
\<close>

fun f64_le :: "f64 \<Rightarrow> f64 \<Rightarrow> bool" where
  "f64_le (Fin a) (Fin b) = (a \<le> b)"
| "f64_le NaN _ = False"
| "f64_le _ NaN = False"
| "f64_le NInf _ = True"
| "f64_le _ PInf = True"
| "f64_le _ _ = False"

fun f64_less :: "f64 \<Rightarrow> f64 \<Rightarrow> bool" where
  "f64_less (Fin a) (Fin b) = (a < b)"
| "f64_less NaN _ = False"
| "f64_less _ NaN = False"
| "f64_less NInf NInf = False"
| "f64_less NInf _ = True"
| "f64_less PInf _ = False"
| "f64_less _ PInf = True"
| "f64_less _ _ = False"

text \<open>
  Product and difference: the exact result rounded, with the IEEE rules for
  infinities and NaN.
\<close>

fun f64_mul :: "f64 \<Rightarrow> f64 \<Rightarrow> f64" where
  "f64_mul (Fin a) (Fin b) = f64_of_real (a * b)"
| "f64_mul NaN _ = NaN"
| "f64_mul _ NaN = NaN"
| "f64_mul (Fin a) PInf = (if 0 < a then PInf else if a < 0 then NInf else NaN)"
| "f64_mul (Fin a) NInf = (if 0 < a then NInf else if a < 0 then PInf else NaN)"
| "f64_mul PInf (Fin b) = (if 0 < b then PInf else if b < 0 then NInf else NaN)"
| "f64_mul NInf (Fin b) = (if 0 < b then NInf else if b < 0 then PInf else NaN)"
| "f64_mul PInf PInf = PInf"
| "f64_mul NInf NInf = PInf"
| "f64_mul PInf NInf = NInf"
| "f64_mul NInf PInf = NInf"

fun f64_sub :: "f64 \<Rightarrow> f64 \<Rightarrow> f64" where
  "f64_sub (Fin a) (Fin b) = f64_of_real (a - b)"
| "f64_sub NaN _ = NaN"
| "f64_sub _ NaN = NaN"
| "f64_sub PInf PInf = NaN"
| "f64_sub NInf NInf = NaN"
| "f64_sub PInf _ = PInf"
| "f64_sub NInf _ = NInf"
| "f64_sub (Fin a) PInf = NInf"
| "f64_sub (Fin a) NInf = PInf"

text \<open>
  \<^verbatim>\<open>x ** y\<close> on finite arguments is the C library's \<^verbatim>\<open>pow\<close>, taken here as correctly
  rounded: the exact power rounded to binary64 for a positive base, infinity for a zero
  base and a negative exponent, NaN for a negative base and a fractional exponent.
\<close>

definition f64_pow :: "real \<Rightarrow> real \<Rightarrow> f64" where
  "f64_pow x y =
     (if 0 < x then f64_of_real (x powr y)
      else if x = 0 then (if y < 0 then PInf else if y = 0 then Fin 1 else Fin 0)
      else if y = of_int \<lfloor>y\<rfloor> then f64_of_real (x powi \<lfloor>y\<rfloor>)
      else NaN)"

text \<open>
  \<^verbatim>\<open>return 62.8 * M**-2.5\<close> as numpy computes it on an array of finite binary64 masses:
  the constant 62.8 rounded to binary64, times the rounded power, rounded again.
\<close>

definition get_t_pre_ms_f64 :: "real list \<Rightarrow> f64 list" where
  "get_t_pre_ms_f64 M = map (\<lambda>m. f64_mul (f64_of_real 62.8) (f64_pow m (- 2.5))) M"

definition f64_finite :: "f64 \<Rightarrow> bool" where
  "f64_finite v = (case v of Fin a \<Rightarrow> True | _ \<Rightarrow> False)"

text \<open>
  \<^verbatim>\<open>get_delays\<close> in binary64: the same reads and the same broadcasting rule as above,
  with the binary64 difference of the two estimates.
\<close>

definition np_sub_f64 :: "f64 list \<Rightarrow> f64 list \<Rightarrow> exn + f64 list" where
  "np_sub_f64 xs ys =
     (if length xs = length ys then Inr (map2 f64_sub xs ys)
      else if length xs = 1 then Inr (map (\<lambda>y. f64_sub (hd xs) y) ys)
      else if length ys = 1 then Inr (map (\<lambda>x. f64_sub x (hd ys)) xs)
      else Inl ValueError)"

definition get_delays_f64 :: "frame \<Rightarrow> exn + f64 list" where
  "get_delays_f64 initC =
     (case getitem initC ''mass_2'' of
        Inl e \<Rightarrow> Inl e
      | Inr m2 \<Rightarrow>
          (case getitem initC ''mass_1'' of
             Inl e \<Rightarrow> Inl e
           | Inr m1 \<Rightarrow> np_sub_f64 (get_t_pre_ms_f64 m2) (get_t_pre_ms_f64 m1)))"

section \<open>pandas operations used by the population delayer\<close>

text \<open>
  \<^verbatim>\<open>df[c] = values\<close> with a numpy array on the right: the array is laid over the rows
  by position and must have one entry per row label, else pandas raises
  \<^verbatim>\<open>ValueError\<close>. An existing column is replaced, a new one is added; the row labels
  stay. (pandas re-labels a table that has no rows when a non-empty array is assigned; in
  \<^verbatim>\<open>delay_companions\<close> that table can no longer take the empty original
  \<^verbatim>\<open>tphysf\<close> at line 80, so the call ends in an exception either way; the model
  reports the length mismatch at once.)
\<close>

definition setitem :: "frame \<Rightarrow> string \<Rightarrow> real list \<Rightarrow> exn + frame" where
  "setitem df c v =
     (if length v = length (index df) then Inr (df\<lparr>cols := (cols df)(c \<mapsto> v)\<rparr>)
      else Inl ValueError)"

text \<open>\<^verbatim>\<open>df[keys].values\<close>: the named columns, in the order of \<open>keys\<close>.\<close>

fun getitems :: "frame \<Rightarrow> string list \<Rightarrow> exn + real list list" where
  "getitems df [] = Inr []"
| "getitems df (k # ks) =
     (case getitem df k of
        Inl e \<Rightarrow> Inl e
      | Inr v \<Rightarrow> (case getitems df ks of Inl e \<Rightarrow> Inl e | Inr vs \<Rightarrow> Inr (v # vs)))"

text \<open>Selecting by a boolean mask keeps the positions where the mask is true.\<close>

definition select :: "bool list \<Rightarrow> 'a list \<Rightarrow> 'a list" where
  "select keep xs = map snd (filter fst (zip keep xs))"

text \<open>\<^verbatim>\<open>df[mask]\<close>: the rows where the mask is true, labels and all columns alike.\<close>

definition take_rows :: "frame \<Rightarrow> bool list \<Rightarrow> frame" where
  "take_rows df keep =
     \<lparr>index = select keep (index df), cols = map_option (select keep) \<circ> cols df\<rparr>"

text \<open>
  \<^verbatim>\<open>duplicated(keep="last")\<close>: a row is a duplicate when its key occurs again further
  down, so the last row of every key is the one that is not marked.
\<close>

fun duplicated_last :: "real list \<Rightarrow> bool list" where
  "duplicated_last [] = []"
| "duplicated_last (x # xs) = (x \<in> set xs) # duplicated_last xs"

text \<open>\<^verbatim>\<open>df.drop_duplicates(subset=c, keep="last")\<close>\<close>

definition drop_duplicates :: "frame \<Rightarrow> string \<Rightarrow> exn + frame" where
  "drop_duplicates df key =
     (case getitem df key of
        Inl e \<Rightarrow> Inl e
      | Inr k \<Rightarrow> Inr (take_rows df (map Not (duplicated_last k))))"

text \<open>\<^verbatim>\<open>Series.unique()\<close>: the distinct values in order of first appearance.\<close>

fun unique_from :: "real list \<Rightarrow> real list \<Rightarrow> real list" where
  "unique_from seen [] = []"
| "unique_from seen (x # xs) =
     (if x \<in> set seen then unique_from seen xs else x # unique_from (x # seen) xs)"

definition unique :: "real list \<Rightarrow> real list" where
  "unique xs = unique_from [] xs"

section \<open>Tables in memory\<close>

text \<open>
  pandas tables are mutable objects handed around by reference. The store holds the
  tables; an address is a position in it, and a new object goes to the end, so its
  address is fresh. Warnings that reach the caller are collected in the state.
\<close>

datatype warning = UserWarning "real list"

record state =
  heap :: "frame list"
  warned :: "warning list"

type_synonym addr = nat

text \<open>\<^verbatim>\<open>df.copy()\<close>: a new object with the same labels and values.\<close>

definition frame_copy :: "state \<Rightarrow> addr \<Rightarrow> addr \<times> state" where
  "frame_copy s a = (length (heap s), s\<lparr>heap := heap s @ [heap s ! a]\<rparr>)"

text \<open>Column assignment on the object at an address.\<close>

definition setitem_at :: "state \<Rightarrow> addr \<Rightarrow> string \<Rightarrow> real list \<Rightarrow> state \<times> (exn + unit)" where
  "setitem_at s a c v =
     (case setitem (heap s ! a) c v of
        Inl e \<Rightarrow> (s, Inl e)
      | Inr df \<Rightarrow> (s\<lparr>heap := (heap s)[a := df]\<rparr>, Inr ()))"

text \<open>
  \<^verbatim>\<open>df[keys] = array2d\<close>: pandas sets the columns one at a time, the i-th key from the
  i-th column of the array.
\<close>

fun setitems_at :: "state \<Rightarrow> addr \<Rightarrow> (string \<times> real list) list \<Rightarrow> state \<times> (exn + unit)" where
  "setitems_at s a [] = (s, Inr ())"
| "setitems_at s a ((k, v) # kvs) =
     (case setitem_at s a k v of
        (s', Inl e) \<Rightarrow> (s', Inl e)
      | (s', Inr _) \<Rightarrow> setitems_at s' a kvs)"

definition warn :: "state \<Rightarrow> warning \<Rightarrow> state" where
  "warn s w = s\<lparr>warned := warned s @ [w]\<rparr>"

section \<open>The population delayer\<close>

definition columns_to_update :: "string list" where
  "columns_to_update =
     [''porb'', ''ecc'', ''kstar_1'', ''mass_1'', ''mass0_1'', ''rad_1'', ''lum_1'',
      ''massc_1'', ''radc_1'', ''menv_1'', ''renv_1'', ''omega_spin_1'', ''B_1'',
      ''bacc_1'', ''tacc_1'', ''epoch_1'', ''tms_1'', ''bhspin_1'']"

text \<open>
  \<^verbatim>\<open>delay_companions(initC, delays, pool, BSEdict)\<close>. The evolution engine
  \<^verbatim>\<open>Evolve.evolve\<close> belongs to another package; it is a parameter here: a function of
  the table it is handed, the settings and the pool that fails or returns the evolution
  history \<^verbatim>\<open>bpp\<close> (the first component of its result). The engine's own warnings,
  two kinds of which the source silences, are not modelled. The caller's table is the
  object at address \<open>initC\<close>; the result is the final state together with the exception
  raised or the address of the new table and the interacting binaries.

  The cases follow the statements of the source in order: the copy (line 57), the
  delays written to \<open>tphysf\<close> (line 60), the engine call (line 67), the keep-last selection
  (line 68), the rows with \<open>3 \<le> evol_type \<le> 8\<close> and their distinct \<open>bin_num\<close> (line 70,
  the two comparisons joined in one mask), the warning (lines 71 to 73), the eighteen
  columns taken from the selection (line 79) and the original \<open>tphysf\<close> read from the
  caller's table and written back (line 80).
\<close>

definition delay_companions ::
  "(frame \<Rightarrow> 'd \<Rightarrow> 'p \<Rightarrow> exn + frame) \<Rightarrow> state \<Rightarrow> addr \<Rightarrow> real list \<Rightarrow> 'p \<Rightarrow> 'd
     \<Rightarrow> state \<times> (exn + addr \<times> real list)" where
  "delay_companions evolve s initC delays pool BSEdict =
     (case frame_copy s initC of (new_initC, s1) \<Rightarrow>
      (case setitem_at s1 new_initC ''tphysf'' delays of
         (s2, Inl e) \<Rightarrow> (s2, Inl e)
       | (s2, Inr _) \<Rightarrow>
      (case evolve (heap s2 ! new_initC) BSEdict pool of
         Inl e \<Rightarrow> (s2, Inl e)
       | Inr bpp \<Rightarrow>
      (case drop_duplicates bpp ''bin_num'' of
         Inl e \<Rightarrow> (s2, Inl e)
       | Inr updater \<Rightarrow>
      (case getitem bpp ''evol_type'' of
         Inl e \<Rightarrow> (s2, Inl e)
       | Inr evol_type \<Rightarrow>
      (case getitem (take_rows bpp (map (\<lambda>e. 3 \<le> e \<and> e \<le> 8) evol_type)) ''bin_num'' of
         Inl e \<Rightarrow> (s2, Inl e)
       | Inr hits \<Rightarrow>
      (let interacting_binaries = unique hits;
           s3 = (if length interacting_binaries > 0
                 then warn s2 (UserWarning interacting_binaries) else s2)
       in
      (case getitems updater columns_to_update of
         Inl e \<Rightarrow> (s3, Inl e)
       | Inr vals \<Rightarrow>
      (case setitems_at s3 new_initC (zip columns_to_update vals) of
         (s4, Inl e) \<Rightarrow> (s4, Inl e)
       | (s4, Inr _) \<Rightarrow>
      (case getitem (heap s4 ! initC) ''tphysf'' of
         Inl e \<Rightarrow> (s4, Inl e)
       | Inr tphysf \<Rightarrow>
      (case setitem_at s4 new_initC ''tphysf'' tphysf of
         (s5, Inl e) \<Rightarrow> (s5, Inl e)
       | (s5, Inr _) \<Rightarrow> (s5, Inr (new_initC, interacting_binaries)))))))))))))"

section \<open>A worked example\<close>

text \<open>
  A population of two binaries (the masses and target times of the specification's
  end-to-end scenario) and a stub engine. The stub returns a history of four rows, two
  per binary; the last row of binary 1 records an interaction (\<open>evol_type = 3\<close>), and
  each of the eighteen state columns reads 11, 12, 13, 14 down the rows.
\<close>

definition example_initC :: frame where
  "example_initC =
     \<lparr>index = [0, 1],
      cols = [''bin_num'' \<mapsto> [0, 1], ''mass_1'' \<mapsto> [1, 3], ''mass_2'' \<mapsto> [2, 1],
              ''tphysf'' \<mapsto> [10000, 8000]]\<rparr>"

definition example_bpp :: frame where
  "example_bpp =
     \<lparr>index = [0, 0, 1, 1],
      cols = (\<lambda>c. if c \<in> set columns_to_update then Some [11, 12, 13, 14] else None)
               (''bin_num'' \<mapsto> [0, 0, 1, 1], ''evol_type'' \<mapsto> [1, 10, 1, 3])\<rparr>"

definition example_engine :: "frame \<Rightarrow> unit \<Rightarrow> unit \<Rightarrow> exn + frame" where
  "example_engine df BSEdict pool = Inr example_bpp"

definition example_state :: state where
  "example_state = \<lparr>heap = [example_initC], warned = []\<rparr>"

text \<open>
  A second run, in which the engine reports the binaries in another order than the
  population lists them: three binaries 0, 1, 2, and a history whose rows belong to
  binaries 0, 1, 0, 2, 1, so that the last rows recorded are those of binaries 0, 2, 1 in
  that order. No row records an interaction.
\<close>

definition reordered_initC :: frame where
  "reordered_initC =
     \<lparr>index = [0, 1, 2],
      cols = [''bin_num'' \<mapsto> [0, 1, 2], ''mass_1'' \<mapsto> [1, 3, 2], ''mass_2'' \<mapsto> [1, 1, 1],
              ''tphysf'' \<mapsto> [10000, 8000, 9000]]\<rparr>"

definition reordered_bpp :: frame where
  "reordered_bpp =
     \<lparr>index = [0, 1, 0, 2, 1],
      cols = (\<lambda>c. if c \<in> set columns_to_update then Some [11, 12, 13, 14, 15] else None)
               (''bin_num'' \<mapsto> [0, 1, 0, 2, 1], ''evol_type'' \<mapsto> [1, 1, 10, 10, 10])\<rparr>"

definition reordered_engine :: "frame \<Rightarrow> unit \<Rightarrow> unit \<Rightarrow> exn + frame" where
  "reordered_engine df BSEdict pool = Inr reordered_bpp"

definition reordered_state :: state where
  "reordered_state = \<lparr>heap = [reordered_initC], warned = []\<rparr>"

section \<open>Facts about the power law\<close>





section \<open>Facts about binary64 rounding\<close>

lemma rne_of_int [simp]: "rne (of_int n) = n"
  by (simp add: rne_def)

lemma rne_lower: "of_int n \<le> x \<Longrightarrow> n \<le> rne x"
  unfolding rne_def by (auto simp: le_floor_iff) linarith+

lemma rne_upper: "x \<le> of_int n \<Longrightarrow> rne x \<le> n"
proof (cases "x = of_int n")
  case True
  then show ?thesis by simp
next
  case False
  assume "x \<le> of_int n"
  with False have "x < of_int n" by simp
  then have "\<lfloor>x\<rfloor> < n" by (simp add: floor_less_iff)
  then show ?thesis unfolding rne_def by auto
qed

lemma rne_mono: "x \<le> y \<Longrightarrow> rne x \<le> rne y"
proof (cases "\<lfloor>x\<rfloor> < \<lfloor>y\<rfloor>")
  case True
  have "x \<le> of_int (\<lfloor>x\<rfloor> + 1)" by linarith
  then have "rne x \<le> \<lfloor>x\<rfloor> + 1" by (rule rne_upper)
  also have "\<dots> \<le> \<lfloor>y\<rfloor>" using True by simp
  also have "\<dots> \<le> rne y" by (rule rne_lower) simp
  finally show ?thesis .
next
  case False
  assume xy: "x \<le> y"
  then have "\<lfloor>x\<rfloor> \<le> \<lfloor>y\<rfloor>" by (rule floor_mono)
  with False have eq: "\<lfloor>x\<rfloor> = \<lfloor>y\<rfloor>" by simp
  with xy show ?thesis unfolding rne_def by auto
qed

lemma floor_log2_bounds:
  fixes x :: real
  assumes "0 < x"
  shows "2 powr of_int \<lfloor>log 2 x\<rfloor> \<le> x" and "x < 2 powr (of_int \<lfloor>log 2 x\<rfloor> + 1)"
proof -
  have "of_int \<lfloor>log 2 x\<rfloor> \<le> log 2 x" by simp
  with le_log_iff [of 2 x "of_int \<lfloor>log 2 x\<rfloor>"] assms
  show "2 powr of_int \<lfloor>log 2 x\<rfloor> \<le> x"
    by simp
  have "log 2 x < of_int \<lfloor>log 2 x\<rfloor> + 1" by linarith
  with log_less_iff [of 2 x "of_int \<lfloor>log 2 x\<rfloor> + 1"] assms
  show "x < 2 powr (of_int \<lfloor>log 2 x\<rfloor> + 1)"
    by simp
qed

lemma floor_log2_eq:
  fixes x :: real
  assumes "2 powr of_int k \<le> x" "x < 2 powr (of_int k + 1)"
  shows "\<lfloor>log 2 x\<rfloor> = k"
proof -
  have "(0::real) < 2 powr of_int k" by simp
  with assms(1) have pos: "0 < x" by linarith
  from assms(1) pos have "of_int k \<le> log 2 x" by (simp add: le_log_iff)
  moreover from assms(2) pos have "log 2 x < of_int k + 1" by (simp add: log_less_iff)
  ultimately show ?thesis by linarith
qed

lemma f64_quantum_pos [simp]: "0 < f64_quantum x"
  by (simp add: f64_quantum_def)

lemma f64_quantum_nonneg [simp]: "0 \<le> f64_quantum x"
  using f64_quantum_pos [of x] by linarith

lemma f64_quantum_neq0 [simp]: "f64_quantum x \<noteq> 0"
  using f64_quantum_pos [of x] by linarith

lemma round_pos_nonneg: "0 \<le> x \<Longrightarrow> 0 \<le> round_pos x"
proof -
  assume "0 \<le> x"
  with f64_quantum_pos [of x] have "of_int 0 \<le> x / f64_quantum x"
    by (simp add: divide_nonneg_pos)
  then have "0 \<le> rne (x / f64_quantum x)" by (rule rne_lower)
  then show ?thesis by (simp add: round_pos_def)
qed

lemma round_pos_exact:
  assumes "x = of_int n * f64_quantum x"
  shows "round_pos x = x"
proof -
  from assms have "x / f64_quantum x = of_int n * f64_quantum x / f64_quantum x"
    by simp
  also have "\<dots> = of_int n"
    using f64_quantum_pos [of x] by simp
  finally have "x / f64_quantum x = of_int n" .
  then have "round_pos x = of_int n * f64_quantum x"
    by (simp add: round_pos_def)
  with assms show ?thesis by simp
qed


lemma pow2_shift53: "(2::real) ^ 53 * 2 powr (a - 52) = 2 powr (a + 1)"
proof -
  have "(2::real) ^ 53 = 2 powr 53" by simp
  then have "(2::real) ^ 53 * 2 powr (a - 52) = 2 powr 53 * 2 powr (a - 52)" by simp
  also have "\<dots> = 2 powr (53 + (a - 52))" by (simp only: powr_add)
  also have "53 + (a - 52) = a + 1" by simp
  finally show ?thesis .
qed

lemma pow2_shift52: "(2::real) ^ 52 * 2 powr (a - 52) = 2 powr a"
proof -
  have "(2::real) ^ 52 = 2 powr 52" by simp
  then have "(2::real) ^ 52 * 2 powr (a - 52) = 2 powr 52 * 2 powr (a - 52)" by simp
  also have "\<dots> = 2 powr (52 + (a - 52))" by (simp only: powr_add)
  also have "52 + (a - 52) = a" by simp
  finally show ?thesis .
qed

lemma round_pos_upper:
  assumes "0 < x"
  shows "round_pos x \<le> 2 powr (of_int (max \<lfloor>log 2 x\<rfloor> (- 1022)) + 1)"
proof -
  define e where "e = max \<lfloor>log 2 x\<rfloor> (- 1022)"
  have q: "f64_quantum x = 2 powr (of_int e - 52)"
    by (simp add: f64_quantum_def e_def)
  have "x < 2 powr (of_int \<lfloor>log 2 x\<rfloor> + 1)"
    using assms by (rule floor_log2_bounds)
  also have "\<dots> \<le> 2 powr (of_int e + 1)"
    by (simp add: e_def)
  finally have "x < 2 powr (of_int e + 1)" .
  then have "x \<le> 2 ^ 53 * f64_quantum x"
    by (simp only: q pow2_shift53)
  then have "x / f64_quantum x \<le> of_int (2 ^ 53)"
    using f64_quantum_pos [of x] by (simp add: pos_divide_le_eq)
  then have "rne (x / f64_quantum x) \<le> 2 ^ 53" by (rule rne_upper)
  then have "(of_int (rne (x / f64_quantum x)) :: real) \<le> of_int (2 ^ 53)"
    by (simp only: of_int_le_iff)
  then have "round_pos x \<le> of_int (2 ^ 53) * f64_quantum x"
    unfolding round_pos_def by (intro mult_right_mono) simp_all
  also have "of_int (2 ^ 53) * f64_quantum x = 2 ^ 53 * 2 powr (of_int e - 52)"
    by (simp only: q of_int_power of_int_numeral)
  also have "\<dots> = 2 powr (of_int e + 1)"
    by (rule pow2_shift53)
  finally show ?thesis by (simp only: e_def)
qed

lemma round_pos_lower:
  assumes "0 < x" "- 1022 \<le> \<lfloor>log 2 x\<rfloor>"
  shows "2 powr of_int \<lfloor>log 2 x\<rfloor> \<le> round_pos x"
proof -
  define e where "e = \<lfloor>log 2 x\<rfloor>"
  from assms(2) have "max \<lfloor>log 2 x\<rfloor> (- 1022) = e"
    unfolding e_def by (rule max_absorb1)
  then have q: "f64_quantum x = 2 powr (of_int e - 52)"
    by (simp only: f64_quantum_def)
  have "2 powr of_int e \<le> x"
    unfolding e_def using assms(1) by (rule floor_log2_bounds)
  then have "2 ^ 52 * f64_quantum x \<le> x"
    by (simp only: q pow2_shift52)
  then have "of_int (2 ^ 52) \<le> x / f64_quantum x"
    using f64_quantum_pos [of x] by (simp add: pos_le_divide_eq)
  then have "2 ^ 52 \<le> rne (x / f64_quantum x)" by (rule rne_lower)
  then have "(of_int (2 ^ 52) :: real) \<le> of_int (rne (x / f64_quantum x))"
    by (simp only: of_int_le_iff)
  then have "of_int (2 ^ 52) * f64_quantum x \<le> round_pos x"
    unfolding round_pos_def by (intro mult_right_mono) simp_all
  moreover have "of_int (2 ^ 52) * f64_quantum x = 2 ^ 52 * 2 powr (of_int e - 52)"
    by (simp only: q of_int_power of_int_numeral)
  moreover have "(2::real) ^ 52 * 2 powr (of_int e - 52) = 2 powr of_int e"
    by (rule pow2_shift52)
  ultimately show ?thesis by (simp only: e_def)
qed

lemma round_pos_mono:
  assumes "0 < x" "x \<le> y"
  shows "round_pos x \<le> round_pos y"
proof -
  define ex where "ex = max \<lfloor>log 2 x\<rfloor> (- 1022)"
  define ey where "ey = max \<lfloor>log 2 y\<rfloor> (- 1022)"
  from assms have y: "0 < y" by simp
  from assms y have "log 2 x \<le> log 2 y" by simp
  then have fl: "\<lfloor>log 2 x\<rfloor> \<le> \<lfloor>log 2 y\<rfloor>" by (rule floor_mono)
  then have le: "ex \<le> ey" by (simp add: ex_def ey_def)
  show ?thesis
  proof (cases "ex = ey")
    case True
    then have q: "f64_quantum x = f64_quantum y"
      by (simp add: f64_quantum_def ex_def ey_def)
    from assms(2) have "x / f64_quantum y \<le> y / f64_quantum y"
      by (intro divide_right_mono) simp_all
    then have "rne (x / f64_quantum y) \<le> rne (y / f64_quantum y)" by (rule rne_mono)
    then have "(of_int (rne (x / f64_quantum y)) :: real) \<le> of_int (rne (y / f64_quantum y))"
      by (simp only: of_int_le_iff)
    then show ?thesis
      unfolding round_pos_def q by (intro mult_right_mono) simp_all
  next
    case False
    with le have lt: "ex < ey" by simp
    have "- 1022 \<le> ex" by (simp add: ex_def)
    with lt have "- 1022 < ey" by simp
    then have eyf: "ey = \<lfloor>log 2 y\<rfloor>" and fy: "- 1022 \<le> \<lfloor>log 2 y\<rfloor>"
      by (simp_all add: ey_def max_def split: if_splits)
    have "round_pos x \<le> 2 powr (of_int ex + 1)"
      unfolding ex_def using assms(1) by (rule round_pos_upper)
    also have "\<dots> \<le> 2 powr of_int ey"
      using lt by simp
    also have "\<dots> \<le> round_pos y"
      unfolding eyf using y fy by (rule round_pos_lower)
    finally show ?thesis .
  qed
qed


lemma f64_of_real_cases:
  assumes "0 \<le> x"
  obtains a where "f64_of_real x = Fin a" "0 \<le> a" "a = (if x = 0 then 0 else round_pos x)"
  | "f64_of_real x = PInf" "0 < x" "f64_huge \<le> round_pos x"
proof (cases "x = 0")
  case True
  then show ?thesis using that(1) [of 0] by (simp add: f64_of_real_def)
next
  case False
  with assms have pos: "0 < x" by simp
  show ?thesis
  proof (cases "round_pos x < f64_huge")
    case True
    with pos False round_pos_nonneg [OF assms] show ?thesis
      using that(1) [of "round_pos x"] by (simp add: f64_of_real_def)
  next
    case False
    with pos show ?thesis using that(2) by (simp add: f64_of_real_def)
  qed
qed

lemma f64_of_real_nonneg: "0 \<le> x \<Longrightarrow> f64_le (Fin 0) (f64_of_real x)"
  by (erule f64_of_real_cases) simp_all

lemma f64_of_real_mono:
  assumes "0 \<le> x" "x \<le> y"
  shows "f64_le (f64_of_real x) (f64_of_real y)"
proof (cases "x = 0")
  case True
  from assms have "0 \<le> y" by simp
  then have "f64_le (Fin 0) (f64_of_real y)" by (rule f64_of_real_nonneg)
  with True show ?thesis by (simp add: f64_of_real_def)
next
  case False
  with assms have x: "0 < x" and y: "0 < y" by simp_all
  from x assms(2) have m: "round_pos x \<le> round_pos y" by (rule round_pos_mono)
  with x y show ?thesis by (simp add: f64_of_real_def)
qed

lemma f64_mul_pos_nonneg:
  assumes "0 < c" "f64_le (Fin 0) v"
  shows "f64_le (Fin 0) (f64_mul (Fin c) v)"
proof (cases v)
  case (Fin a)
  with assms have "0 \<le> c * a" by simp
  then show ?thesis unfolding Fin f64_mul.simps by (rule f64_of_real_nonneg)
qed (use assms in simp_all)

lemma f64_le_of_real_PInf: "0 \<le> x \<Longrightarrow> f64_le (f64_of_real x) PInf"
  by (erule f64_of_real_cases) simp_all

lemma f64_mul_pos_mono:
  assumes "0 < c" "f64_le (Fin 0) v" "f64_le v w"
  shows "f64_le (f64_mul (Fin c) v) (f64_mul (Fin c) w)"
proof (cases v)
  case v: (Fin a)
  with assms(2) have a: "0 \<le> a" by simp
  show ?thesis
  proof (cases w)
    case w: (Fin b)
    with v assms(3) have "a \<le> b" by simp
    with assms(1) a have "0 \<le> c * a" "c * a \<le> c * b" by simp_all
    then show ?thesis unfolding v w f64_mul.simps by (rule f64_of_real_mono)
  next
    case PInf
    from assms(1) a have "0 \<le> c * a" by simp
    then have "f64_le (f64_of_real (c * a)) PInf" by (rule f64_le_of_real_PInf)
    with assms(1) show ?thesis by (simp add: v PInf)
  qed (use assms v in simp_all)
next
  case PInf
  with assms show ?thesis by (cases w) simp_all
qed (use assms in simp_all)


lemma f64_huge_pos [simp]: "0 < f64_huge"
  by (simp add: f64_huge_def)

lemma f64_huge_powr: "f64_huge = 2 powr 1024"
  by (simp add: f64_huge_def)

lemma less_f64_huge: "x \<le> 2 ^ 10 \<Longrightarrow> x < f64_huge"
proof -
  assume "x \<le> 2 ^ 10"
  also have "(2::real) ^ 10 < 2 ^ 1024"
    by (rule power_strict_increasing) simp_all
  finally show ?thesis by (simp only: f64_huge_def)
qed



lemma round_pos_pow2:
  assumes "- 1022 \<le> k"
  shows "round_pos (2 powr of_int k) = 2 powr of_int k"
proof (rule round_pos_exact [of _ "2 ^ 52"])
  have "\<lfloor>log 2 (2 powr of_int k)\<rfloor> = k" by simp
  with assms have "max \<lfloor>log 2 (2 powr of_int k)\<rfloor> (- 1022) = k" by simp
  then have "f64_quantum (2 powr of_int k) = 2 powr (of_int k - 52)"
    by (simp only: f64_quantum_def)
  then have "of_int (2 ^ 52) * f64_quantum (2 powr of_int k) = 2 ^ 52 * 2 powr (of_int k - 52)"
    by (simp only: of_int_power of_int_numeral)
  also have "\<dots> = 2 powr of_int k" by (rule pow2_shift52)
  finally show "2 powr of_int k = of_int (2 ^ 52) * f64_quantum (2 powr of_int k)" by simp
qed

lemma f64_of_real_pow2:
  assumes "- 1022 \<le> k" "k < 1024"
  shows "f64_of_real (2 powr of_int k) = Fin (2 powr of_int k)"
proof -
  from assms(2) have "(of_int k :: real) < 1024" by simp
  then have "(2::real) powr of_int k < 2 powr 1024"
    by (intro powr_less_mono) simp_all
  then have "(2::real) powr of_int k < f64_huge" by (simp only: f64_huge_powr)
  with round_pos_pow2 [OF assms(1)] show ?thesis
    by (simp add: f64_of_real_def)
qed

lemma f64_62_8: "f64_of_real 62.8 = Fin (8838314268714598 / 2 ^ 47)"
proof -
  have "\<lfloor>log 2 (62.8 :: real)\<rfloor> = 5"
  proof (rule floor_log2_eq)
    show "2 powr of_int 5 \<le> (62.8 :: real)" by simp
    show "(62.8 :: real) < 2 powr (of_int 5 + 1)" by simp
  qed
  then have "max \<lfloor>log 2 (62.8 :: real)\<rfloor> (- 1022) = 5" by simp
  then have "f64_quantum 62.8 = 2 powr (of_int 5 - 52)"
    by (simp only: f64_quantum_def)
  also have "of_int 5 - 52 = (- 47 :: real)" by simp
  also have "2 powr (- 47 :: real) = inverse (2 powr 47)" by (rule powr_minus)
  also have "(2::real) powr 47 = 2 ^ 47" by simp
  finally have q: "f64_quantum 62.8 = inverse (2 ^ 47)" .
  have "(62.8 :: real) / inverse (2 ^ 47) = 44191571343572992 / 5" by simp
  moreover have "rne (44191571343572992 / 5) = 8838314268714598"
    by (simp add: rne_def)
  ultimately have "round_pos 62.8 = 8838314268714598 * inverse (2 ^ 47)"
    by (simp only: round_pos_def q of_int_numeral)
  then have r: "round_pos 62.8 = 8838314268714598 / 2 ^ 47"
    by (simp only: divide_inverse)
  have "(8838314268714598 / 2 ^ 47 :: real) \<le> 2 ^ 10" by simp
  then have "(8838314268714598 / 2 ^ 47 :: real) < f64_huge" by (rule less_f64_huge)
  with r show ?thesis by (simp add: f64_of_real_def)
qed


lemma get_t_pre_ms_f64_nth:
  "i < length M \<Longrightarrow>
   get_t_pre_ms_f64 M ! i = f64_mul (f64_of_real 62.8) (f64_pow (M ! i) (- 2.5))"
  by (simp add: get_t_pre_ms_f64_def)

lemma length_get_t_pre_ms_f64 [simp]: "length (get_t_pre_ms_f64 M) = length M"
  by (simp add: get_t_pre_ms_f64_def)

lemma f64_pow_pos: "0 < m \<Longrightarrow> f64_pow m y = f64_of_real (m powr y)"
  by (simp add: f64_pow_def)

lemma t_f64_nonneg:
  assumes "0 < m"
  shows "f64_le (Fin 0) (f64_mul (f64_of_real 62.8) (f64_pow m (- 2.5)))"
proof -
  have "f64_le (Fin 0) (f64_of_real (m powr (- 2.5)))"
    by (rule f64_of_real_nonneg) simp
  then have "f64_le (Fin 0) (f64_mul (Fin (8838314268714598 / 2 ^ 47)) (f64_of_real (m powr (- 2.5))))"
    by (intro f64_mul_pos_nonneg) simp_all
  then show ?thesis
    by (simp only: f64_62_8 f64_pow_pos [OF assms])
qed

lemma t_f64_antimono:
  assumes "0 < m1" "m1 \<le> m2"
  shows "f64_le (f64_mul (f64_of_real 62.8) (f64_pow m2 (- 2.5)))
                (f64_mul (f64_of_real 62.8) (f64_pow m1 (- 2.5)))"
proof -
  from assms have m2: "0 < m2" by simp
  from assms have "m2 powr (- 2.5) \<le> m1 powr (- 2.5)"
    by (intro powr_mono2') simp_all
  then have "f64_le (f64_of_real (m2 powr (- 2.5))) (f64_of_real (m1 powr (- 2.5)))"
    by (intro f64_of_real_mono) simp_all
  moreover have "f64_le (Fin 0) (f64_of_real (m2 powr (- 2.5)))"
    by (rule f64_of_real_nonneg) simp
  ultimately have
    "f64_le (f64_mul (Fin (8838314268714598 / 2 ^ 47)) (f64_of_real (m2 powr (- 2.5))))
            (f64_mul (Fin (8838314268714598 / 2 ^ 47)) (f64_of_real (m1 powr (- 2.5))))"
    by (intro f64_mul_pos_mono) simp_all
  then show ?thesis
    by (simp only: f64_62_8 f64_pow_pos [OF assms(1)] f64_pow_pos [OF m2])
qed


section \<open>Facts about the table operations\<close>

lemma select_Nil [simp]: "select [] xs = []" "select bs [] = []"
  by (simp_all add: select_def)

lemma select_Cons [simp]:
  "select (b # bs) (x # xs) = (if b then x # select bs xs else select bs xs)"
  by (simp add: select_def)

lemma select_map: "select bs (map f xs) = map f (select bs xs)"
  by (induction bs xs rule: list_induct2') simp_all

lemma length_select:
  "length bs = length xs \<Longrightarrow> length (select bs xs) = length (filter (\<lambda>b. b) bs)"
  by (induction bs xs rule: list_induct2) simp_all

lemma set_select:
  "length bs = length xs \<Longrightarrow> set (select bs xs) = {xs ! j | j. j < length xs \<and> bs ! j}"
proof (induction bs xs rule: list_induct2)
  case Nil
  then show ?case by simp
next
  case (Cons b bs x xs)
  have "{(x # xs) ! j | j. j < length (x # xs) \<and> (b # bs) ! j}
        = (if b then {x} else {}) \<union> {xs ! j | j. j < length xs \<and> bs ! j}"
    (is "?L = ?R")
  proof (intro set_eqI iffI)
    fix y assume "y \<in> ?L"
    then obtain j where j: "y = (x # xs) ! j" "j < length (x # xs)" "(b # bs) ! j" by blast
    then show "y \<in> ?R" by (cases j) auto
  next
    fix y assume "y \<in> ?R"
    then consider "b" "y = x" | j where "y = xs ! j" "j < length xs" "bs ! j"
      by (auto split: if_splits)
    then show "y \<in> ?L"
    proof cases
      case 1
      then have "y = (x # xs) ! 0 \<and> 0 < length (x # xs) \<and> (b # bs) ! 0" by simp
      then show ?thesis by blast
    next
      case 2
      then have "y = (x # xs) ! Suc j \<and> Suc j < length (x # xs) \<and> (b # bs) ! Suc j" by simp
      then show ?thesis by blast
    qed
  qed
  with Cons show ?case by auto
qed

lemma select_nth_positions:
  "length bs = length xs \<Longrightarrow>
   select bs xs = map ((!) xs) (filter (\<lambda>j. bs ! j) [0..<length xs])"
proof (induction bs xs rule: list_induct2)
  case Nil
  then show ?case by simp
next
  case (Cons b bs x xs)
  have up: "[0..<length (x # xs)] = 0 # map Suc [0..<length xs]"
    by (simp add: upt_conv_Cons map_Suc_upt del: upt_Suc)
  show ?case
    unfolding up using Cons by (simp add: filter_map comp_def)
qed

lemma length_duplicated_last [simp]: "length (duplicated_last xs) = length xs"
  by (induction xs) simp_all

lemma duplicated_last_nth:
  "j < length xs \<Longrightarrow> duplicated_last xs ! j = (xs ! j \<in> set (drop (Suc j) xs))"
proof (induction xs arbitrary: j)
  case Nil
  then show ?case by simp
next
  case (Cons x xs)
  then show ?case by (cases j) simp_all
qed

lemma set_unique_from: "set (unique_from seen xs) = set xs - set seen"
  by (induction seen xs rule: unique_from.induct) auto

lemma distinct_unique_from: "distinct (unique_from seen xs)"
  by (induction seen xs rule: unique_from.induct) (auto simp: set_unique_from)

lemma set_unique [simp]: "set (unique xs) = set xs"
  by (simp add: unique_def set_unique_from)

lemma distinct_unique [simp]: "distinct (unique xs)"
  by (simp add: unique_def distinct_unique_from)


section \<open>Facts about the store and the population delayer\<close>

lemma getitem_Inr [simp]: "getitem df c = Inr v \<longleftrightarrow> cols df c = Some v"
  by (simp add: getitem_def split: option.splits)

lemma getitems_Inr:
  "getitems df ks = Inr vs \<Longrightarrow> map (cols df) ks = map Some vs"
proof (induction ks arbitrary: vs)
  case Nil
  then show ?case by simp
next
  case (Cons k ks)
  then show ?case by (auto split: sum.splits)
qed

lemma getitems_zip:
  assumes "getitems df ks = Inr vs"
  shows "length vs = length ks" and "(k, v) \<in> set (zip ks vs) \<Longrightarrow> cols df k = Some v"
proof -
  note m = getitems_Inr [OF assms]
  from m have "length (map (cols df) ks) = length (map Some vs)" by simp
  then show len: "length vs = length ks" by simp
  assume "(k, v) \<in> set (zip ks vs)"
  then obtain i where i: "i < length ks" "ks ! i = k" "vs ! i = v"
    using len by (auto simp: set_zip)
  from m have "map (cols df) ks ! i = map Some vs ! i" by simp
  with i len show "cols df k = Some v" by simp
qed

lemma cols_take_rows [simp]: "cols (take_rows df keep) c = map_option (select keep) (cols df c)"
  by (simp add: take_rows_def)

lemma index_take_rows [simp]: "index (take_rows df keep) = select keep (index df)"
  by (simp add: take_rows_def)

lemma setitem_at_Inr:
  assumes "setitem_at s a c v = (s', Inr u)"
  shows "length v = length (index (heap s ! a))"
    and "s' = s\<lparr>heap := (heap s)[a := (heap s ! a)\<lparr>cols := (cols (heap s ! a))(c \<mapsto> v)\<rparr>]\<rparr>"
  using assms by (auto simp: setitem_at_def setitem_def split: if_splits)

lemma setitem_at_frame:
  assumes "setitem_at s a c v = (s', r)"
  shows "warned s' = warned s" and "length (heap s') = length (heap s)"
    and "b \<noteq> a \<Longrightarrow> heap s' ! b = heap s ! b"
  using assms by (auto simp: setitem_at_def setitem_def split: if_splits)

lemma setitem_at_Inr_cols:
  assumes "setitem_at s a c v = (s', Inr u)" "a < length (heap s)"
  shows "index (heap s' ! a) = index (heap s ! a)"
    and "cols (heap s' ! a) = (cols (heap s ! a))(c \<mapsto> v)"
  using assms by (auto simp: setitem_at_def setitem_def split: if_splits)

lemma setitems_at_frame:
  "setitems_at s a kvs = (s', r) \<Longrightarrow>
   warned s' = warned s \<and> length (heap s') = length (heap s) \<and>
   (\<forall>b. b \<noteq> a \<longrightarrow> heap s' ! b = heap s ! b)"
proof (induction kvs arbitrary: s)
  case Nil
  then show ?case by simp
next
  case (Cons kv kvs)
  obtain k v where kv: "kv = (k, v)" by (cases kv)
  obtain s1 r1 where st: "setitem_at s a k v = (s1, r1)" by (cases "setitem_at s a k v")
  note f = setitem_at_frame [OF st]
  show ?case
  proof (cases r1)
    case (Inl e)
    with Cons.prems kv st f show ?thesis by auto
  next
    case (Inr u)
    with Cons.prems kv st have "setitems_at s1 a kvs = (s', r)" by simp
    from Cons.IH [OF this] f show ?thesis by simp
  qed
qed

lemma setitems_at_Inr:
  "setitems_at s a kvs = (s', Inr u) \<Longrightarrow> a < length (heap s) \<Longrightarrow>
   index (heap s' ! a) = index (heap s ! a) \<and>
   (\<forall>c. c \<notin> fst ` set kvs \<longrightarrow> cols (heap s' ! a) c = cols (heap s ! a) c) \<and>
   (distinct (map fst kvs) \<longrightarrow> (\<forall>k v. (k, v) \<in> set kvs \<longrightarrow> cols (heap s' ! a) k = Some v))"
proof (induction kvs arbitrary: s)
  case Nil
  then show ?case by simp
next
  case (Cons kv kvs)
  obtain k v where kv: "kv = (k, v)" by (cases kv)
  obtain s1 r1 where st: "setitem_at s a k v = (s1, r1)" by (cases "setitem_at s a k v")
  from Cons.prems(1) kv st obtain u1 where r1: "r1 = Inr u1" and rest: "setitems_at s1 a kvs = (s', Inr u)"
    by (cases r1) auto
  from st r1 have st': "setitem_at s a k v = (s1, Inr u1)" by simp
  note c1 = setitem_at_Inr_cols [OF st' Cons.prems(2)]
  from setitem_at_frame(2) [OF st] Cons.prems(2) have "a < length (heap s1)" by simp
  note ih = Cons.IH [OF rest this]
  show ?case
  proof (intro conjI allI impI)
    show "index (heap s' ! a) = index (heap s ! a)"
      using ih c1 by simp
  next
    fix c assume "c \<notin> fst ` set (kv # kvs)"
    then have "c \<noteq> k" "c \<notin> fst ` set kvs" using kv by auto
    with ih c1 show "cols (heap s' ! a) c = cols (heap s ! a) c" by simp
  next
    fix k' v' assume d: "distinct (map fst (kv # kvs))" and m: "(k', v') \<in> set (kv # kvs)"
    from d kv have dk: "k \<notin> fst ` set kvs" "distinct (map fst kvs)" by auto
    from m kv consider "k' = k" "v' = v" | "(k', v') \<in> set kvs" by auto
    then show "cols (heap s' ! a) k' = Some v'"
    proof cases
      case 1
      with ih dk c1 show ?thesis by simp
    next
      case 2
      with ih dk show ?thesis by blast
    qed
  qed
qed

lemma setitems_at_lengths:
  "setitems_at s a kvs = (s', Inr u) \<Longrightarrow> a < length (heap s) \<Longrightarrow> (k, v) \<in> set kvs \<Longrightarrow>
   length v = length (index (heap s ! a))"
proof (induction kvs arbitrary: s)
  case Nil
  then show ?case by simp
next
  case (Cons kv kvs)
  obtain k0 v0 where kv: "kv = (k0, v0)" by (cases kv)
  obtain s1 r1 where st: "setitem_at s a k0 v0 = (s1, r1)" by (cases "setitem_at s a k0 v0")
  from Cons.prems(1) kv st obtain u1 where r1: "r1 = Inr u1"
    and rest: "setitems_at s1 a kvs = (s', Inr u)"
    by (cases r1) auto
  from st r1 have st': "setitem_at s a k0 v0 = (s1, Inr u1)" by simp
  from setitem_at_frame(2) [OF st] Cons.prems(2) have a1: "a < length (heap s1)" by simp
  from Cons.prems(3) kv consider "k = k0" "v = v0" | "(k, v) \<in> set kvs" by auto
  then show ?case
  proof cases
    case 1
    with setitem_at_Inr(1) [OF st'] show ?thesis by simp
  next
    case 2
    from Cons.IH [OF rest a1 2] setitem_at_Inr_cols(1) [OF st' Cons.prems(2)]
    show ?thesis by simp
  qed
qed

lemma delay_companions_InrE:
  assumes "delay_companions evolve s initC delays pool BSEdict = (s', Inr (new, ib))"
  obtains s1 s2 bpp updater evol_type hits s3 vals s4 tphysf u2 u4 u5 where
    "frame_copy s initC = (new, s1)"
    "setitem_at s1 new ''tphysf'' delays = (s2, Inr u2)"
    "evolve (heap s2 ! new) BSEdict pool = Inr bpp"
    "drop_duplicates bpp ''bin_num'' = Inr updater"
    "getitem bpp ''evol_type'' = Inr evol_type"
    "getitem (take_rows bpp (map (\<lambda>e. 3 \<le> e \<and> e \<le> 8) evol_type)) ''bin_num'' = Inr hits"
    "ib = unique hits"
    "s3 = (if length ib > 0 then warn s2 (UserWarning ib) else s2)"
    "getitems updater columns_to_update = Inr vals"
    "setitems_at s3 new (zip columns_to_update vals) = (s4, Inr u4)"
    "getitem (heap s4 ! initC) ''tphysf'' = Inr tphysf"
    "setitem_at s4 new ''tphysf'' tphysf = (s', Inr u5)"
  using assms unfolding delay_companions_def Let_def
  by (auto split: prod.splits sum.splits simp del: getitem_Inr)


lemma distinct_columns_to_update: "distinct columns_to_update"
  by (simp add: columns_to_update_def)

lemma tphysf_not_updated: "''tphysf'' \<notin> set columns_to_update"
  by (simp add: columns_to_update_def)

lemma warned_warn [simp]: "warned (warn s w) = warned s @ [w]"
  by (simp add: warn_def)

lemma heap_warn [simp]: "heap (warn s w) = heap s"
  by (simp add: warn_def)

lemma delay_companions_result:
  assumes run: "delay_companions evolve s initC delays pool BSEdict = (s', Inr (new, ib))"
    and a: "initC < length (heap s)"
  obtains bpp bn et tph where
    "new = length (heap s)"
    "length (heap s') = Suc (length (heap s))"
    "\<And>b. b < length (heap s) \<Longrightarrow> heap s' ! b = heap s ! b"
    "length delays = length (index (heap s ! initC))"
    "evolve ((heap s ! initC)\<lparr>cols := (cols (heap s ! initC))(''tphysf'' \<mapsto> delays)\<rparr>) BSEdict pool
       = Inr bpp"
    "cols bpp ''bin_num'' = Some bn"
    "cols bpp ''evol_type'' = Some et"
    "ib = unique (select (map (\<lambda>e. 3 \<le> e \<and> e \<le> 8) et) bn)"
    "warned s' = (if ib \<noteq> [] then warned s @ [UserWarning ib] else warned s)"
    "index (heap s' ! new) = index (heap s ! initC)"
    "cols (heap s ! initC) ''tphysf'' = Some tph"
    "cols (heap s' ! new) ''tphysf'' = Some tph"
    "\<And>c. c \<in> set columns_to_update \<Longrightarrow>
       \<exists>vs. cols bpp c = Some vs \<and>
            length (select (map Not (duplicated_last bn)) vs) = length (index (heap s ! initC)) \<and>
            cols (heap s' ! new) c = Some (select (map Not (duplicated_last bn)) vs)"
    "\<And>c. c \<notin> set columns_to_update \<Longrightarrow> c \<noteq> ''tphysf'' \<Longrightarrow>
       cols (heap s' ! new) c = cols (heap s ! initC) c"
proof -
  from run obtain s1 s2 bpp updater et hits s3 vals s4 tph u2 u4 u5 where
    cp: "frame_copy s initC = (new, s1)" and
    set1: "setitem_at s1 new ''tphysf'' delays = (s2, Inr u2)" and
    eng: "evolve (heap s2 ! new) BSEdict pool = Inr bpp" and
    dd: "drop_duplicates bpp ''bin_num'' = Inr updater" and
    get_et: "getitem bpp ''evol_type'' = Inr et" and
    get_hits: "getitem (take_rows bpp (map (\<lambda>e. 3 \<le> e \<and> e \<le> 8) et)) ''bin_num'' = Inr hits" and
    ib: "ib = unique hits" and
    s3: "s3 = (if length ib > 0 then warn s2 (UserWarning ib) else s2)" and
    get_vals: "getitems updater columns_to_update = Inr vals" and
    set2: "setitems_at s3 new (zip columns_to_update vals) = (s4, Inr u4)" and
    get_tph: "getitem (heap s4 ! initC) ''tphysf'' = Inr tph" and
    set3: "setitem_at s4 new ''tphysf'' tph = (s', Inr u5)"
    by (rule delay_companions_InrE)
  let ?in = "heap s ! initC"
  \<comment> \<open>line 57\<close>
  from cp have new: "new = length (heap s)" and h1: "heap s1 = heap s @ [?in]"
    and w1: "warned s1 = warned s"
    by (auto simp: frame_copy_def)
  from new a have ne: "initC \<noteq> new" by simp
  from h1 new have n1: "new < length (heap s1)" and at1: "heap s1 ! new = ?in" by simp_all
  \<comment> \<open>line 60\<close>
  from setitem_at_Inr(1) [OF set1] at1 have len: "length delays = length (index ?in)" by simp
  from setitem_at_Inr_cols [OF set1 n1] at1
  have i2: "index (heap s2 ! new) = index ?in"
    and c2: "cols (heap s2 ! new) = (cols ?in)(''tphysf'' \<mapsto> delays)" by simp_all
  have at2: "heap s2 ! new = ?in\<lparr>cols := (cols ?in)(''tphysf'' \<mapsto> delays)\<rparr>"
    using i2 c2 by simp
  note f2 = setitem_at_frame [OF set1]
  \<comment> \<open>lines 68 and 70\<close>
  from dd obtain bn where bn: "cols bpp ''bin_num'' = Some bn"
    and upd: "updater = take_rows bpp (map Not (duplicated_last bn))"
    by (auto simp: drop_duplicates_def getitem_def split: option.splits)
  from get_et have et: "cols bpp ''evol_type'' = Some et" by simp
  from get_hits bn have hits: "hits = select (map (\<lambda>e. 3 \<le> e \<and> e \<le> 8) et) bn" by auto
  from s3 have h3: "heap s3 = heap s2"
    and w3: "warned s3 = (if ib \<noteq> [] then warned s2 @ [UserWarning ib] else warned s2)"
    by auto
  \<comment> \<open>line 79\<close>
  note gz = getitems_zip [OF get_vals]
  from f2(2) n1 h3 have n3: "new < length (heap s3)" by simp
  note f4 = setitems_at_frame [OF set2]
  note r4 = setitems_at_Inr [OF set2 n3]
  from gz(1) have keys: "map fst (zip columns_to_update vals) = columns_to_update" by simp
  then have keyset: "fst ` set (zip columns_to_update vals) = set columns_to_update"
    by (metis set_map)
  \<comment> \<open>line 80\<close>
  from f4 n3 have n4: "new < length (heap s4)" by simp
  from f4 ne h3 f2(3) [OF ne] h1 a have at4: "heap s4 ! initC = ?in"
    by (simp add: nth_append)
  from get_tph at4 have tph: "cols ?in ''tphysf'' = Some tph" by simp
  note f5 = setitem_at_frame [OF set3]
  note r5 = setitem_at_Inr_cols [OF set3 n4]
  show ?thesis
  proof (rule that [of bpp bn et tph])
    show "new = length (heap s)" by (rule new)
    show "length (heap s') = Suc (length (heap s))"
      using f5(2) f4 h3 f2(2) h1 by simp
    show "heap s' ! b = heap s ! b" if "b < length (heap s)" for b
    proof -
      from that new have "b \<noteq> new" by simp
      with f5(3) f4 h3 f2(3) h1 that show ?thesis by (simp add: nth_append)
    qed
    show "length delays = length (index ?in)" by (rule len)
    show "evolve (?in\<lparr>cols := (cols ?in)(''tphysf'' \<mapsto> delays)\<rparr>) BSEdict pool = Inr bpp"
      using eng at2 by simp
    show "cols bpp ''bin_num'' = Some bn" by (rule bn)
    show "cols bpp ''evol_type'' = Some et" by (rule et)
    show "ib = unique (select (map (\<lambda>e. 3 \<le> e \<and> e \<le> 8) et) bn)"
      using ib hits by simp
    show "warned s' = (if ib \<noteq> [] then warned s @ [UserWarning ib] else warned s)"
      using f5(1) f4 w3 f2(1) w1 by simp
    show "index (heap s' ! new) = index ?in"
      using r5(1) r4 h3 i2 by simp
    show "cols ?in ''tphysf'' = Some tph" by (rule tph)
    show "cols (heap s' ! new) ''tphysf'' = Some tph"
      using r5(2) by simp
    show "\<exists>vs. cols bpp c = Some vs \<and>
            length (select (map Not (duplicated_last bn)) vs) = length (index ?in) \<and>
            cols (heap s' ! new) c = Some (select (map Not (duplicated_last bn)) vs)"
      if c: "c \<in> set columns_to_update" for c
    proof -
      from c keyset obtain v where kv: "(c, v) \<in> set (zip columns_to_update vals)"
        by (metis (no_types, opaque_lifting) fst_conv imageE prod.collapse)
      from gz(2) [OF kv] upd obtain vs where vs: "cols bpp c = Some vs"
        and v: "v = select (map Not (duplicated_last bn)) vs"
        by auto
      from r4 keys distinct_columns_to_update kv have c4: "cols (heap s4 ! new) c = Some v"
        by simp
      from c tphysf_not_updated have "c \<noteq> ''tphysf''" by auto
      with r5(2) c4 have out: "cols (heap s' ! new) c = Some v" by simp
      from setitems_at_lengths [OF set2 n3 kv] h3 i2
      have "length v = length (index ?in)" by simp
      with vs v out show ?thesis by simp
    qed
    show "cols (heap s' ! new) c = cols ?in c"
      if "c \<notin> set columns_to_update" "c \<noteq> ''tphysf''" for c
      using that r5(2) r4 keyset h3 c2 by simp
  qed
qed

section \<open>When the population delayer returns\<close>

text \<open>
  The theorems about the returned table are not vacuous: the call returns whenever the
  input is well formed and has a \<open>tphysf\<close> column, there is one delay per row, and the
  engine answers with a well-formed history that has the columns \<open>bin_num\<close>,
  \<open>evol_type\<close> and the eighteen state columns and records as many distinct binaries as
  the input has rows.
\<close>

lemma length_kept_rows:
  "length (filter (\<lambda>b. b) (map Not (duplicated_last xs))) = card (set xs)"
proof (induction xs)
  case Nil
  then show ?case by simp
next
  case (Cons x xs)
  then show ?case by (simp add: insert_absorb)
qed

lemma getitems_total:
  "\<forall>k \<in> set ks. cols df k \<noteq> None \<Longrightarrow> \<exists>vs. getitems df ks = Inr vs"
proof (induction ks)
  case Nil
  then show ?case by simp
next
  case (Cons k ks)
  then obtain v vs where "cols df k = Some v" "getitems df ks = Inr vs" by auto
  then show ?case by (simp add: getitem_def)
qed

lemma setitem_at_total:
  "length v = length (index (heap s ! a)) \<Longrightarrow> \<exists>s'. setitem_at s a c v = (s', Inr ())"
  by (simp add: setitem_at_def setitem_def)

lemma setitems_at_total:
  "a < length (heap s) \<Longrightarrow> \<forall>(k, v) \<in> set kvs. length v = length (index (heap s ! a)) \<Longrightarrow>
   \<exists>s'. setitems_at s a kvs = (s', Inr ())"
proof (induction kvs arbitrary: s)
  case Nil
  then show ?case by simp
next
  case (Cons kv kvs)
  obtain k v where kv: "kv = (k, v)" by (cases kv)
  with Cons.prems(2) have "length v = length (index (heap s ! a))" by simp
  then obtain s1 where st: "setitem_at s a k v = (s1, Inr ())"
    using setitem_at_total by blast
  from setitem_at_frame(2) [OF st] Cons.prems(1) have a1: "a < length (heap s1)" by simp
  from setitem_at_Inr_cols(1) [OF st Cons.prems(1)] Cons.prems(2)
  have "\<forall>(k, v) \<in> set kvs. length v = length (index (heap s1 ! a))" by simp
  from Cons.IH [OF a1 this] obtain s' where "setitems_at s1 a kvs = (s', Inr ())" by blast
  with st kv show ?case by simp
qed


lemma delay_companions_returns:
  assumes a: "initC < length (heap s)"
    and wfin: "wf_frame (heap s ! initC)"
    and len: "length delays = length (index (heap s ! initC))"
    and tph: "cols (heap s ! initC) ''tphysf'' = Some tph"
    and eng: "evolve ((heap s ! initC)\<lparr>cols := (cols (heap s ! initC))(''tphysf'' \<mapsto> delays)\<rparr>)
                BSEdict pool = Inr bpp"
    and wf: "wf_frame bpp"
    and bn: "cols bpp ''bin_num'' = Some bn"
    and et: "cols bpp ''evol_type'' = Some et"
    and cs: "\<forall>c \<in> set columns_to_update. cols bpp c \<noteq> None"
    and n: "card (set bn) = length (index (heap s ! initC))"
  shows "\<exists>s' ib. delay_companions evolve s initC delays pool BSEdict
                   = (s', Inr (length (heap s), ib))"
proof -
  let ?in = "heap s ! initC"
  let ?new = "length (heap s)"
  let ?keep = "map Not (duplicated_last bn)"
  define s1 where "s1 = s\<lparr>heap := heap s @ [?in]\<rparr>"
  define s2 where "s2 = s1\<lparr>heap := (heap s1)[?new := ?in\<lparr>cols := (cols ?in)(''tphysf'' \<mapsto> delays)\<rparr>]\<rparr>"
  let ?ib = "unique (select (map (\<lambda>e. 3 \<le> e \<and> e \<le> 8) et) bn)"
  let ?s3 = "if length ?ib > 0 then warn s2 (UserWarning ?ib) else s2"
  have cp: "frame_copy s initC = (?new, s1)"
    by (simp add: frame_copy_def s1_def)
  have at1: "heap s1 ! ?new = ?in" by (simp add: s1_def)
  have set1: "setitem_at s1 ?new ''tphysf'' delays = (s2, Inr ())"
    by (simp add: setitem_at_def setitem_def at1 len s2_def)
  have at2: "heap s2 ! ?new = ?in\<lparr>cols := (cols ?in)(''tphysf'' \<mapsto> delays)\<rparr>"
    by (simp add: s2_def s1_def)
  have h3: "heap ?s3 = heap s2" by simp
  have n3: "?new < length (heap ?s3)" by (simp add: h3 s2_def s1_def)
  have i3: "index (heap ?s3 ! ?new) = index ?in" by (simp add: h3 at2)
  have in3: "heap ?s3 ! initC = ?in"
    using a by (simp add: h3 s2_def s1_def nth_append)
  have dd: "drop_duplicates bpp ''bin_num'' = Inr (take_rows bpp ?keep)"
    by (simp add: drop_duplicates_def getitem_def bn)
  have hits: "getitem (take_rows bpp (map (\<lambda>e. 3 \<le> e \<and> e \<le> 8) et)) ''bin_num''
                = Inr (select (map (\<lambda>e. 3 \<le> e \<and> e \<le> 8) et) bn)"
    by (simp add: bn)
  from cs have "\<forall>c \<in> set columns_to_update. cols (take_rows bpp ?keep) c \<noteq> None"
    by simp
  then obtain vals where vals: "getitems (take_rows bpp ?keep) columns_to_update = Inr vals"
    using getitems_total by blast
  note gz = getitems_zip [OF vals]
  have "\<forall>(k, v) \<in> set (zip columns_to_update vals). length v = length (index (heap ?s3 ! ?new))"
  proof (clarify)
    fix k v assume "(k, v) \<in> set (zip columns_to_update vals)"
    from gz(2) [OF this] obtain vs where vs: "cols bpp k = Some vs" and v: "v = select ?keep vs"
      by auto
    from wf vs bn have "length vs = length bn" by (simp add: wf_frame_def)
    then have "length (select ?keep vs) = length (filter (\<lambda>b. b) ?keep)"
      by (intro length_select) simp
    with v n i3 show "length v = length (index (heap ?s3 ! ?new))"
      by (simp only: length_kept_rows)
  qed
  from setitems_at_total [OF n3 this] obtain s4 where
    set2: "setitems_at ?s3 ?new (zip columns_to_update vals) = (s4, Inr ())" by blast
  note f4 = setitems_at_frame [OF set2]
  note r4 = setitems_at_Inr [OF set2 n3]
  from f4 a in3 have in4: "heap s4 ! initC = ?in" by simp
  from wfin tph have "length tph = length (index ?in)" by (simp add: wf_frame_def)
  with r4 i3 have "length tph = length (index (heap s4 ! ?new))" by simp
  then obtain s5 where set3: "setitem_at s4 ?new ''tphysf'' tph = (s5, Inr ())"
    using setitem_at_total by blast
  have get_et: "getitem bpp ''evol_type'' = Inr et" using et by simp
  have get_tph: "getitem (heap s4 ! initC) ''tphysf'' = Inr tph" using in4 tph by simp
  have "delay_companions evolve s initC delays pool BSEdict = (s5, Inr (?new, ?ib))"
    unfolding delay_companions_def
    by (simp only: cp set1 at2 eng dd get_et hits Let_def vals set2 get_tph set3
        prod.case sum.case)
  then show ?thesis by blast
qed

section \<open>The worked example, evaluated\<close>

lemma wf_example_bpp: "wf_frame example_bpp"
  by (auto simp: wf_frame_def example_bpp_def split: if_splits)

lemma example_run:
  "snd (delay_companions example_engine example_state 0 [5, 7] () ()) = Inr (1, [1])"
  by (simp add: delay_companions_def frame_copy_def setitem_at_def setitem_def
      example_engine_def example_bpp_def example_state_def example_initC_def
      drop_duplicates_def getitem_def take_rows_def unique_def warn_def
      columns_to_update_def Let_def)

lemma setitems_at_frame_all:
  "setitems_at s a kvs = (s', r) \<Longrightarrow> 
   length (heap s') = length (heap s) \<and> (\<forall>b. b \<noteq> a \<longrightarrow> heap s' ! b = heap s ! b)"
  using setitems_at_frame by blast

lemma setitem_at_frame_all:
  "setitem_at s a c v = (s', r) \<Longrightarrow> 
   length (heap s') = length (heap s) \<and> (\<forall>b. b \<noteq> a \<longrightarrow> heap s' ! b = heap s ! b)"
  using setitem_at_frame by blast

lemma delay_companions_frame:
  assumes "delay_companions evolve s initC delays pool BSEdict = (s', r)"
  shows "length (heap s') = Suc (length (heap s)) \<and> (\<forall>b < length (heap s). heap s' ! b = heap s ! b)"
  using assms unfolding delay_companions_def Let_def frame_copy_def
  by (auto split: prod.splits sum.splits if_splits simp del: getitem_Inr simp: nth_append
      dest!: setitem_at_frame_all setitems_at_frame_all)


lemma example_run_pair:
  "delay_companions example_engine example_state 0 [5, 7] () ()
     = (fst (delay_companions example_engine example_state 0 [5, 7] () ()), Inr (1, [1]))"
  using example_run by (simp add: prod_eq_iff)

lemma example_initC_valid: "0 < length (heap example_state)"
  by (simp add: example_state_def)

lemma example_input: "heap example_state ! 0 = example_initC"
  by (simp add: example_state_def)

lemma example_engine_run:
  "example_engine
     ((heap example_state ! 0)\<lparr>cols := (cols (heap example_state ! 0))(''tphysf'' \<mapsto> [5, 7])\<rparr>) () ()
   = Inr example_bpp"
  by (simp add: example_engine_def)

lemma last_row_positions:
  assumes "i < length (filter (\<lambda>j. bn ! j \<notin> set (drop (Suc j) bn)) [0..<length bn])"
  defines "j \<equiv> filter (\<lambda>j. bn ! j \<notin> set (drop (Suc j) bn)) [0..<length bn] ! i"
  shows "j < length bn" and "\<And>k. j < k \<Longrightarrow> k < length (bn :: real list) \<Longrightarrow> bn ! k \<noteq> bn ! j"
proof -
  from assms(1) have "j \<in> set (filter (\<lambda>j. bn ! j \<notin> set (drop (Suc j) bn)) [0..<length bn])"
    unfolding j_def by (rule nth_mem)
  then have j: "j < length bn" and last: "bn ! j \<notin> set (drop (Suc j) bn)"
    by simp_all
  show "j < length bn" by (rule j)
  fix k assume k: "j < k" "k < length bn"
  then have "drop (Suc j) bn ! (k - Suc j) = bn ! k" and "k - Suc j < length (drop (Suc j) bn)"
    by simp_all
  then have "bn ! k \<in> set (drop (Suc j) bn)"
    by (metis nth_mem)
  with last show "bn ! k \<noteq> bn ! j" by auto
qed

lemma example_bpp_cols:
  "cols example_bpp ''bin_num'' = Some [0, 0, 1, 1]"
  "cols example_bpp ''evol_type'' = Some [1, 10, 1, 3]"
  "cols example_bpp ''mass_1'' = Some [11, 12, 13, 14]"
  by (simp_all add: example_bpp_def columns_to_update_def)

lemma reordered_run:
  "snd (delay_companions reordered_engine reordered_state 0 [5, 6, 7] () ()) = Inr (1, [])"
  by (simp add: delay_companions_def frame_copy_def setitem_at_def setitem_def
      reordered_engine_def reordered_bpp_def reordered_state_def reordered_initC_def
      drop_duplicates_def getitem_def take_rows_def unique_def warn_def
      columns_to_update_def Let_def)

lemma reordered_result:
  "cols (heap (fst (delay_companions reordered_engine reordered_state 0 [5, 6, 7] () ())) ! 1)
     ''bin_num'' = Some [0, 1, 2]"
  "cols (heap (fst (delay_companions reordered_engine reordered_state 0 [5, 6, 7] () ())) ! 1)
     ''mass_1'' = Some [13, 14, 15]"
  by (simp_all add: delay_companions_def frame_copy_def setitem_at_def setitem_def
      reordered_engine_def reordered_bpp_def reordered_state_def reordered_initC_def
      drop_duplicates_def getitem_def take_rows_def unique_def warn_def
      columns_to_update_def Let_def)

lemma reordered_bpp_cols:
  "cols reordered_bpp ''bin_num'' = Some [0, 1, 0, 2, 1]"
  "cols reordered_bpp ''mass_1'' = Some [11, 12, 13, 14, 15]"
  by (simp_all add: reordered_bpp_def columns_to_update_def)

lemma columns_to_update_names:
  "columns_to_update = [''porb'', ''ecc'', ''kstar_1'', ''mass_1'', ''mass0_1'', ''rad_1'', ''lum_1'',
               ''massc_1'', ''radc_1'', ''menv_1'', ''renv_1'', ''omega_spin_1'', ''B_1'',
               ''bacc_1'', ''tacc_1'', ''epoch_1'', ''tms_1'', ''bhspin_1'']"
  by (simp add: columns_to_update_def)

section \<open>The population delayer: claims\<close>

text \<open>
  Claim C1. Whenever \<^verbatim>\<open>delay_companions\<close> returns, the \<open>tphysf\<close> column of the returned
  table is the \<open>tphysf\<close> column of the caller's table, whatever the delays were; the
  delays were the \<open>tphysf\<close> column only of the table the engine was run on.
\<close>

theorem delay_companions_restores_tphysf:
  assumes "initC < length (heap s)"
    and "delay_companions evolve s initC delays pool BSEdict = (s', Inr (new, ib))"
  shows "\<exists>tphysf bpp.
           cols (heap s ! initC) ''tphysf'' = Some tphysf \<and>
           cols (heap s' ! new) ''tphysf'' = Some tphysf \<and>
           evolve ((heap s ! initC)\<lparr>cols := (cols (heap s ! initC))(''tphysf'' \<mapsto> delays)\<rparr>)
             BSEdict pool = Inr bpp"
proof -
  from assms(2,1) obtain bpp tph where
    "evolve ((heap s ! initC)\<lparr>cols := (cols (heap s ! initC))(''tphysf'' \<mapsto> delays)\<rparr>)
       BSEdict pool = Inr bpp"
    "cols (heap s ! initC) ''tphysf'' = Some tph"
    "cols (heap s' ! new) ''tphysf'' = Some tph"
    by (rule delay_companions_result)
  then show ?thesis by blast
qed


text \<open>
  Witness for C1: the worked example returns, with \<open>tphysf = [10000, 8000]\<close> restored.
\<close>

theorem delay_companions_restores_tphysf_witness:
  "snd (delay_companions example_engine example_state 0 [5, 7] () ()) = Inr (1, [1]) \<and>
   cols (heap (fst (delay_companions example_engine example_state 0 [5, 7] () ())) ! 1) ''tphysf''
     = Some [10000, 8000]"
proof -
  have "cols (heap example_state ! 0) ''tphysf'' = Some [10000, 8000]"
    by (simp add: example_input example_initC_def)
  with delay_companions_restores_tphysf [OF example_initC_valid example_run_pair] example_run
  show ?thesis by auto
qed


text \<open>
  Counterexample to C2 as stated (every row receives the final state of its own
  binary): the population lists the binaries 0, 1, 2, the history's last rows are those
  of binaries 0, 2, 1 in that order, and the result's row of binary 1 receives
  \<open>mass_1 = 14\<close>, the final state of binary 2, while the last row recorded for binary 1
  carries 15.
\<close>

theorem delay_companions_merge_not_by_bin_num:
  "snd (delay_companions reordered_engine reordered_state 0 [5, 6, 7] () ()) = Inr (1, []) \<and>
   cols reordered_bpp ''bin_num'' = Some [0, 1, 0, 2, 1] \<and>
   cols reordered_bpp ''mass_1'' = Some [11, 12, 13, 14, 15] \<and>
   cols (heap (fst (delay_companions reordered_engine reordered_state 0 [5, 6, 7] () ())) ! 1)
     ''bin_num'' = Some [0, 1, 2] \<and>
   cols (heap (fst (delay_companions reordered_engine reordered_state 0 [5, 6, 7] () ())) ! 1)
     ''mass_1'' = Some [13, 14, 15] \<and>
   [0, 1, 2 :: real] ! 1 = 1 \<and> [13, 14, 15 :: real] ! 1 = 14 \<and>
   [0, 1, 0, 2, 1 :: real] ! 4 = 1 \<and> [11, 12, 13, 14, 15 :: real] ! 4 = 15 \<and>
   (14 :: real) \<noteq> 15"
  using reordered_run reordered_result reordered_bpp_cols by simp

text \<open>
  Claim C2, amended. Each of the eighteen state columns of the returned table holds, at
  row position \<open>i\<close>, the engine's value in the \<open>i\<close>-th final-state row of the history:
  the rows whose \<open>bin_num\<close> does not occur again further down (keep-last), in the order
  of the history, laid over the rows of the table by position. That row is the last one
  recorded for some binary; it is the row's own binary whenever the final-state rows
  list the binaries in the order of the table's \<open>bin_num\<close> column.
\<close>

theorem delay_companions_merges_final_rows:
  assumes "initC < length (heap s)"
    and "delay_companions evolve s initC delays pool BSEdict = (s', Inr (new, ib))"
    and "evolve ((heap s ! initC)\<lparr>cols := (cols (heap s ! initC))(''tphysf'' \<mapsto> delays)\<rparr>)
           BSEdict pool = Inr bpp"
    and "wf_frame bpp"
    and "c \<in> set [''porb'', ''ecc'', ''kstar_1'', ''mass_1'', ''mass0_1'', ''rad_1'', ''lum_1'',
               ''massc_1'', ''radc_1'', ''menv_1'', ''renv_1'', ''omega_spin_1'', ''B_1'',
               ''bacc_1'', ''tacc_1'', ''epoch_1'', ''tms_1'', ''bhspin_1'']"
  shows "\<exists>bin_num vs col.
           cols bpp ''bin_num'' = Some bin_num \<and> cols bpp c = Some vs \<and>
           cols (heap s' ! new) c = Some col \<and>
           length col = length (index (heap s' ! new)) \<and>
           col = map ((!) vs)
                  (filter (\<lambda>j. bin_num ! j \<notin> set (drop (Suc j) bin_num)) [0..<length bin_num]) \<and>
           (\<forall>i < length col. \<exists>j < length bin_num.
              j = filter (\<lambda>j. bin_num ! j \<notin> set (drop (Suc j) bin_num)) [0..<length bin_num] ! i \<and>
              col ! i = vs ! j \<and>
              (\<forall>k. j < k \<and> k < length bin_num \<longrightarrow> bin_num ! k \<noteq> bin_num ! j)) \<and>
           (\<forall>b. cols (heap s' ! new) ''bin_num'' = Some b \<and>
                b = map ((!) bin_num)
                      (filter (\<lambda>j. bin_num ! j \<notin> set (drop (Suc j) bin_num)) [0..<length bin_num]) \<longrightarrow>
                (\<forall>i < length col. \<exists>j < length bin_num.
                   bin_num ! j = b ! i \<and> col ! i = vs ! j \<and>
                   (\<forall>k. j < k \<and> k < length bin_num \<longrightarrow> bin_num ! k \<noteq> b ! i)))"
  using assms(2,1)
proof (rule delay_companions_result)
  fix bpp' bn
  assume eng: "evolve ((heap s ! initC)\<lparr>cols := (cols (heap s ! initC))(''tphysf'' \<mapsto> delays)\<rparr>)
           BSEdict pool = Inr bpp'"
    and bn': "cols bpp' ''bin_num'' = Some bn"
    and ix: "index (heap s' ! new) = index (heap s ! initC)"
    and upd: "\<And>c. c \<in> set columns_to_update \<Longrightarrow>
       \<exists>vs. cols bpp' c = Some vs \<and>
            length (select (map Not (duplicated_last bn)) vs) = length (index (heap s ! initC)) \<and>
            cols (heap s' ! new) c = Some (select (map Not (duplicated_last bn)) vs)"
  let ?J = "filter (\<lambda>j. bn ! j \<notin> set (drop (Suc j) bn)) [0..<length bn]"
  from assms(5) have c: "c \<in> set columns_to_update"
    by (simp only: columns_to_update_names)
  from eng assms(3) have same: "bpp' = bpp" by simp
  from bn' same have bn: "cols bpp ''bin_num'' = Some bn" by simp
  from upd [OF c] same obtain vs where
    vs: "cols bpp c = Some vs" and
    len: "length (select (map Not (duplicated_last bn)) vs) = length (index (heap s ! initC))" and
    out: "cols (heap s' ! new) c = Some (select (map Not (duplicated_last bn)) vs)"
    by blast
  from assms(4) bn vs have l: "length vs = length bn"
    by (simp add: wf_frame_def)
  then have "select (map Not (duplicated_last bn)) vs
      = map ((!) vs) (filter (\<lambda>j. map Not (duplicated_last bn) ! j) [0..<length vs])"
    by (intro select_nth_positions) simp
  also have "filter (\<lambda>j. map Not (duplicated_last bn) ! j) [0..<length vs] = ?J"
    unfolding l by (rule filter_cong) (simp_all add: duplicated_last_nth)
  finally have sel: "select (map Not (duplicated_last bn)) vs = map ((!) vs) ?J" .
  have rows: "\<exists>j < length bn. j = ?J ! i \<and> map ((!) vs) ?J ! i = vs ! j \<and>
                (\<forall>k. j < k \<and> k < length bn \<longrightarrow> bn ! k \<noteq> bn ! j)"
    if "i < length (map ((!) vs) ?J)" for i
  proof -
    from that have i: "i < length ?J" by simp
    from last_row_positions [OF i] i show ?thesis by simp
  qed
  have own: "\<exists>j < length bn. bn ! j = b ! i \<and> map ((!) vs) ?J ! i = vs ! j \<and>
                (\<forall>k. j < k \<and> k < length bn \<longrightarrow> bn ! k \<noteq> b ! i)"
    if "b = map ((!) bn) ?J" "i < length (map ((!) vs) ?J)" for b i
  proof -
    from that(2) have i: "i < length ?J" by simp
    with that(1) have "b ! i = bn ! (?J ! i)" by simp
    with rows [OF that(2)] show ?thesis by auto
  qed
  from bn vs out len ix sel rows own
  show "\<exists>bin_num vs col.
           cols bpp ''bin_num'' = Some bin_num \<and> cols bpp c = Some vs \<and>
           cols (heap s' ! new) c = Some col \<and>
           length col = length (index (heap s' ! new)) \<and>
           col = map ((!) vs)
                  (filter (\<lambda>j. bin_num ! j \<notin> set (drop (Suc j) bin_num)) [0..<length bin_num]) \<and>
           (\<forall>i < length col. \<exists>j < length bin_num.
              j = filter (\<lambda>j. bin_num ! j \<notin> set (drop (Suc j) bin_num)) [0..<length bin_num] ! i \<and>
              col ! i = vs ! j \<and>
              (\<forall>k. j < k \<and> k < length bin_num \<longrightarrow> bin_num ! k \<noteq> bin_num ! j)) \<and>
           (\<forall>b. cols (heap s' ! new) ''bin_num'' = Some b \<and>
                b = map ((!) bin_num)
                      (filter (\<lambda>j. bin_num ! j \<notin> set (drop (Suc j) bin_num)) [0..<length bin_num]) \<longrightarrow>
                (\<forall>i < length col. \<exists>j < length bin_num.
                   bin_num ! j = b ! i \<and> col ! i = vs ! j \<and>
                   (\<forall>k. j < k \<and> k < length bin_num \<longrightarrow> bin_num ! k \<noteq> b ! i)))"
    by (intro exI [of _ bn] exI [of _ vs] exI [of _ "map ((!) vs) ?J"]) simp
qed

text \<open>
  Witness for the amended C2: in the worked example the final-state rows are rows 1 and
  3 of the history, those of binaries 0 and 1 as the table lists them, and \<open>mass_1\<close>
  becomes \<open>[12, 14]\<close>.
\<close>

theorem delay_companions_merges_final_rows_witness:
  "snd (delay_companions example_engine example_state 0 [5, 7] () ()) = Inr (1, [1]) \<and>
   wf_frame example_bpp \<and>
   cols example_bpp ''bin_num'' = Some [0, 0, 1, 1] \<and>
   cols example_bpp ''mass_1'' = Some [11, 12, 13, 14] \<and>
   cols (heap (fst (delay_companions example_engine example_state 0 [5, 7] () ())) ! 1) ''bin_num''
     = Some [0, 1] \<and>
   cols (heap (fst (delay_companions example_engine example_state 0 [5, 7] () ())) ! 1) ''mass_1''
     = Some [12, 14] \<and>
   [0, 0, 1, 1 :: real] ! 1 = 0 \<and> [11, 12, 13, 14 :: real] ! 1 = 12 \<and>
   [0, 0, 1, 1 :: real] ! 3 = 1 \<and> [11, 12, 13, 14 :: real] ! 3 = 14"
proof -
  have c: "''mass_1'' \<in> set [''porb'', ''ecc'', ''kstar_1'', ''mass_1'', ''mass0_1'', ''rad_1'', ''lum_1'',
               ''massc_1'', ''radc_1'', ''menv_1'', ''renv_1'', ''omega_spin_1'', ''B_1'',
               ''bacc_1'', ''tacc_1'', ''epoch_1'', ''tms_1'', ''bhspin_1'']"
    by simp
  have bn: "cols example_bpp ''bin_num'' = Some [0, 0, 1, 1]"
    and vs: "cols example_bpp ''mass_1'' = Some [11, 12, 13, 14]"
    by (simp_all add: example_bpp_def columns_to_update_def)
  have pos: "filter (\<lambda>j. [0, 0, 1, 1 :: real] ! j \<notin> set (drop (Suc j) [0, 0, 1, 1])) [0..<4]
               = [1, 3]"
    by (simp add: upt_conv_Cons)
  have obn: "cols (heap (fst (delay_companions example_engine example_state 0 [5, 7] () ())) ! 1)
               ''bin_num'' = Some [0, 1]"
    by (simp add: delay_companions_def frame_copy_def setitem_at_def setitem_def
      example_engine_def example_bpp_def example_state_def example_initC_def
      drop_duplicates_def getitem_def take_rows_def unique_def warn_def
      columns_to_update_def Let_def)
  from delay_companions_merges_final_rows
    [OF example_initC_valid example_run_pair, OF example_engine_run wf_example_bpp c]
  obtain b v col where
    b: "cols example_bpp ''bin_num'' = Some b" and v: "cols example_bpp ''mass_1'' = Some v" and
    out: "cols (heap (fst (delay_companions example_engine example_state 0 [5, 7] () ())) ! 1)
            ''mass_1'' = Some col" and
    col: "col = map ((!) v) (filter (\<lambda>j. b ! j \<notin> set (drop (Suc j) b)) [0..<length b])"
    by blast
  from b bn have b': "b = [0, 0, 1, 1]" by simp
  from v vs have v': "v = [11, 12, 13, 14]" by simp
  have "col = map ((!) [11, 12, 13, 14]) [1, 3]"
    unfolding col b' v' using pos by simp
  then have "col = [12, 14]" by simp
  with out obn example_run wf_example_bpp bn vs show ?thesis by simp
qed

text \<open>
  Claim C3. The interacting binaries returned are exactly the \<open>bin_num\<close> values of the
  history rows whose \<open>evol_type\<close> lies between 3 and 8 inclusive, each once. If there is
  such a row, one warning naming them is emitted; if there is none, the result is empty
  and no warning is emitted.
\<close>

theorem delay_companions_interacting_binaries:
  assumes "initC < length (heap s)"
    and "delay_companions evolve s initC delays pool BSEdict = (s', Inr (new, ib))"
    and "evolve ((heap s ! initC)\<lparr>cols := (cols (heap s ! initC))(''tphysf'' \<mapsto> delays)\<rparr>)
           BSEdict pool = Inr bpp"
    and "wf_frame bpp"
  shows "\<exists>bin_num evol_type.
           cols bpp ''bin_num'' = Some bin_num \<and> cols bpp ''evol_type'' = Some evol_type \<and>
           set ib = {bin_num ! j | j. j < length bin_num \<and> 3 \<le> evol_type ! j \<and> evol_type ! j \<le> 8} \<and>
           distinct ib \<and>
           (if \<exists>j < length bin_num. 3 \<le> evol_type ! j \<and> evol_type ! j \<le> 8
            then warned s' = warned s @ [UserWarning ib]
            else ib = [] \<and> warned s' = warned s)"
  using assms(2,1)
proof (rule delay_companions_result)
  fix bpp' bn et
  assume eng: "evolve ((heap s ! initC)\<lparr>cols := (cols (heap s ! initC))(''tphysf'' \<mapsto> delays)\<rparr>)
           BSEdict pool = Inr bpp'"
    and bn': "cols bpp' ''bin_num'' = Some bn"
    and et': "cols bpp' ''evol_type'' = Some et"
    and ib: "ib = unique (select (map (\<lambda>e. 3 \<le> e \<and> e \<le> 8) et) bn)"
    and w: "warned s' = (if ib \<noteq> [] then warned s @ [UserWarning ib] else warned s)"
  from eng assms(3) have same: "bpp' = bpp" by simp
  from bn' et' same have bn: "cols bpp ''bin_num'' = Some bn" and et: "cols bpp ''evol_type'' = Some et"
    by simp_all
  with assms(4) have l: "length et = length bn"
    by (simp add: wf_frame_def)
  have "set ib = set (select (map (\<lambda>e. 3 \<le> e \<and> e \<le> 8) et) bn)"
    using ib by simp
  also have "\<dots> = {bn ! j | j. j < length bn \<and> map (\<lambda>e. 3 \<le> e \<and> e \<le> 8) et ! j}"
    using l by (intro set_select) simp
  also have "\<dots> = {bn ! j | j. j < length bn \<and> 3 \<le> et ! j \<and> et ! j \<le> 8}"
    using l by auto
  finally have sib: "set ib = {bn ! j | j. j < length bn \<and> 3 \<le> et ! j \<and> et ! j \<le> 8}" .
  have dib: "distinct ib" using ib by simp
  have ne: "ib \<noteq> [] \<longleftrightarrow> (\<exists>j < length bn. 3 \<le> et ! j \<and> et ! j \<le> 8)"
  proof -
    have "ib \<noteq> [] \<longleftrightarrow> set ib \<noteq> {}" by simp
    also have "\<dots> \<longleftrightarrow> (\<exists>j < length bn. 3 \<le> et ! j \<and> et ! j \<le> 8)"
      unfolding sib by blast
    finally show ?thesis .
  qed
  have "if \<exists>j < length bn. 3 \<le> et ! j \<and> et ! j \<le> 8
        then warned s' = warned s @ [UserWarning ib]
        else ib = [] \<and> warned s' = warned s"
  proof (cases "\<exists>j < length bn. 3 \<le> et ! j \<and> et ! j \<le> 8")
    case True
    with ne have "ib \<noteq> []" by blast
    with w have "warned s' = warned s @ [UserWarning ib]" by simp
    with True show ?thesis by (simp only: if_True)
  next
    case False
    with ne have "ib = []" by blast
    with w have "ib = [] \<and> warned s' = warned s" by simp
    with False show ?thesis by (simp only: if_False)
  qed
  with bn et sib dib
  show "\<exists>bin_num evol_type.
           cols bpp ''bin_num'' = Some bin_num \<and> cols bpp ''evol_type'' = Some evol_type \<and>
           set ib = {bin_num ! j | j. j < length bin_num \<and> 3 \<le> evol_type ! j \<and> evol_type ! j \<le> 8} \<and>
           distinct ib \<and>
           (if \<exists>j < length bin_num. 3 \<le> evol_type ! j \<and> evol_type ! j \<le> 8
            then warned s' = warned s @ [UserWarning ib]
            else ib = [] \<and> warned s' = warned s)"
    by blast
qed


text \<open>
  Witness for C3: in the worked example row 3 has \<open>evol_type = 3\<close> and \<open>bin_num = 1\<close>.
\<close>

theorem delay_companions_interacting_binaries_witness:
  "snd (delay_companions example_engine example_state 0 [5, 7] () ()) = Inr (1, [1]) \<and>
   wf_frame example_bpp \<and>
   cols example_bpp ''bin_num'' = Some [0, 0, 1, 1] \<and>
   cols example_bpp ''evol_type'' = Some [1, 10, 1, 3] \<and>
   warned (fst (delay_companions example_engine example_state 0 [5, 7] () ())) = [UserWarning [1]]"
proof -
  from delay_companions_interacting_binaries
    [OF example_initC_valid example_run_pair, OF example_engine_run wf_example_bpp]
  obtain b e where
    b: "cols example_bpp ''bin_num'' = Some b" and e: "cols example_bpp ''evol_type'' = Some e" and
    w: "if \<exists>j < length b. 3 \<le> e ! j \<and> e ! j \<le> 8
        then warned (fst (delay_companions example_engine example_state 0 [5, 7] () ()))
               = warned example_state @ [UserWarning [1]]
        else [1] = ([] :: real list) \<and>
             warned (fst (delay_companions example_engine example_state 0 [5, 7] () ()))
               = warned example_state"
    by blast
  from b example_bpp_cols(1) have b': "b = [0, 0, 1, 1]" by simp
  from e example_bpp_cols(2) have e': "e = [1, 10, 1, 3]" by simp
  have "(3::nat) < length b \<and> 3 \<le> e ! 3 \<and> e ! 3 \<le> 8"
    unfolding b' e' by simp
  then have "\<exists>j < length b. 3 \<le> e ! j \<and> e ! j \<le> 8" by blast
  with w have "warned (fst (delay_companions example_engine example_state 0 [5, 7] () ()))
               = warned example_state @ [UserWarning [1]]"
    by (simp only: if_True)
  then have "warned (fst (delay_companions example_engine example_state 0 [5, 7] () ()))
               = [UserWarning [1]]"
    by (simp add: example_state_def)
  with example_run wf_example_bpp example_bpp_cols show ?thesis by simp
qed

text \<open>
  Claim C4. The returned table has the row labels of the input, in the same order (so
  the same number of rows), and its \<open>bin_num\<close> column is the input's, unique if the
  input's was; every column of the result has one value per row when the input was
  well formed.
\<close>

theorem delay_companions_preserves_rows:
  assumes "initC < length (heap s)"
    and "delay_companions evolve s initC delays pool BSEdict = (s', Inr (new, ib))"
  shows "index (heap s' ! new) = index (heap s ! initC) \<and>
         length (index (heap s' ! new)) = length (index (heap s ! initC)) \<and>
         cols (heap s' ! new) ''bin_num'' = cols (heap s ! initC) ''bin_num'' \<and>
         (wf_frame (heap s ! initC) \<longrightarrow> wf_frame (heap s' ! new)) \<and>
         (\<forall>b. cols (heap s ! initC) ''bin_num'' = Some b \<and> distinct b \<longrightarrow>
              (\<exists>b'. cols (heap s' ! new) ''bin_num'' = Some b' \<and> b' = b \<and> distinct b'))"
  using assms(2,1)
proof (rule delay_companions_result)
  fix bpp bn tph
  assume ix: "index (heap s' ! new) = index (heap s ! initC)"
    and tin: "cols (heap s ! initC) ''tphysf'' = Some tph"
    and tout: "cols (heap s' ! new) ''tphysf'' = Some tph"
    and upd: "\<And>c. c \<in> set columns_to_update \<Longrightarrow>
       \<exists>vs. cols bpp c = Some vs \<and>
            length (select (map Not (duplicated_last bn)) vs) = length (index (heap s ! initC)) \<and>
            cols (heap s' ! new) c = Some (select (map Not (duplicated_last bn)) vs)"
    and rest: "\<And>c. c \<notin> set columns_to_update \<Longrightarrow> c \<noteq> ''tphysf'' \<Longrightarrow>
       cols (heap s' ! new) c = cols (heap s ! initC) c"
  have nb: "''bin_num'' \<notin> set columns_to_update" "''bin_num'' \<noteq> ''tphysf''"
    by (simp_all add: columns_to_update_def)
  from rest [OF nb] have b: "cols (heap s' ! new) ''bin_num'' = cols (heap s ! initC) ''bin_num''" .
  have wf: "wf_frame (heap s' ! new)" if win: "wf_frame (heap s ! initC)"
    unfolding wf_frame_def
  proof (intro allI impI)
    fix c v assume cv: "cols (heap s' ! new) c = Some v"
    consider "c \<in> set columns_to_update" | "c = ''tphysf''"
      | "c \<notin> set columns_to_update" "c \<noteq> ''tphysf''" by blast
    then show "length v = length (index (heap s' ! new))"
    proof cases
      case 1
      from upd [OF 1] cv ix show ?thesis by auto
    next
      case 2
      with cv tout tin win ix show ?thesis by (simp add: wf_frame_def)
    next
      case 3
      from rest [OF 3] cv win ix show ?thesis by (simp add: wf_frame_def)
    qed
  qed
  from ix b wf
  show "index (heap s' ! new) = index (heap s ! initC) \<and>
         length (index (heap s' ! new)) = length (index (heap s ! initC)) \<and>
         cols (heap s' ! new) ''bin_num'' = cols (heap s ! initC) ''bin_num'' \<and>
         (wf_frame (heap s ! initC) \<longrightarrow> wf_frame (heap s' ! new)) \<and>
         (\<forall>b. cols (heap s ! initC) ''bin_num'' = Some b \<and> distinct b \<longrightarrow>
              (\<exists>b'. cols (heap s' ! new) ''bin_num'' = Some b' \<and> b' = b \<and> distinct b'))"
    by simp
qed

text \<open>
  Witness for C4: the worked example.
\<close>

theorem delay_companions_preserves_rows_witness:
  "snd (delay_companions example_engine example_state 0 [5, 7] () ()) = Inr (1, [1]) \<and>
   distinct [0, 1 :: real] \<and>
   index (heap (fst (delay_companions example_engine example_state 0 [5, 7] () ())) ! 1) = [0, 1] \<and>
   cols (heap (fst (delay_companions example_engine example_state 0 [5, 7] () ())) ! 1) ''bin_num''
     = Some [0, 1]"
proof -
  have "index (heap example_state ! 0) = [0, 1]"
    and "cols (heap example_state ! 0) ''bin_num'' = Some [0, 1]"
    by (simp_all add: example_input example_initC_def)
  with delay_companions_preserves_rows [OF example_initC_valid example_run_pair] example_run
  show ?thesis by simp
qed

text \<open>
  Claim C8. Whether the call returns or raises, the caller's table is unchanged, as is
  every other table that existed before the call; a returned table is a new object, at
  an address that was not in use before and differs from the input's.
\<close>

theorem delay_companions_leaves_input:
  assumes "initC < length (heap s)"
    and "delay_companions evolve s initC delays pool BSEdict = (s', r)"
  shows "heap s' ! initC = heap s ! initC \<and>
         (\<forall>b < length (heap s). heap s' ! b = heap s ! b) \<and>
         (\<forall>new ib. r = Inr (new, ib) \<longrightarrow>
            new \<noteq> initC \<and> \<not> new < length (heap s) \<and> new < length (heap s'))"
proof -
  note f = delay_companions_frame [OF assms(2)]
  have "new \<noteq> initC \<and> \<not> new < length (heap s) \<and> new < length (heap s')"
    if "r = Inr (new, ib)" for new ib
    using assms(2) unfolding that using assms(1)
  proof (rule delay_companions_result)
    assume "new = length (heap s)" "length (heap s') = Suc (length (heap s))"
    with assms(1) show ?thesis by simp
  qed
  with f assms(1) show ?thesis by blast
qed

text \<open>
  Witness for C8: after the worked example the object at address 0 is still the input
  and the result lives at address 1.
\<close>

theorem delay_companions_leaves_input_witness:
  "snd (delay_companions example_engine example_state 0 [5, 7] () ()) = Inr (1, [1]) \<and>
   heap (fst (delay_companions example_engine example_state 0 [5, 7] () ())) ! 0 = example_initC \<and>
   (1::nat) \<noteq> 0 \<and>
   1 < length (heap (fst (delay_companions example_engine example_state 0 [5, 7] () ())))"
  using delay_companions_leaves_input [OF example_initC_valid example_run_pair] example_run
  by (simp add: example_input)

text \<open>
  Claim C9. Every column other than the eighteen updated ones and \<open>tphysf\<close> is in the
  returned table what it was in the input (absent if it was absent); in particular no
  column of the secondary star is overwritten.
\<close>

theorem delay_companions_other_columns:
  assumes "initC < length (heap s)"
    and "delay_companions evolve s initC delays pool BSEdict = (s', Inr (new, ib))"
  shows "(\<forall>c. c \<notin> set columns_to_update \<and> c \<noteq> ''tphysf'' \<longrightarrow>
            cols (heap s' ! new) c = cols (heap s ! initC) c) \<and>
         (\<forall>c \<in> set [''kstar_2'', ''mass_2'', ''mass0_2'', ''rad_2'', ''lum_2'', ''massc_2'',
                      ''radc_2'', ''menv_2'', ''renv_2'', ''omega_spin_2'', ''B_2'', ''bacc_2'',
                      ''tacc_2'', ''epoch_2'', ''tms_2'', ''bhspin_2''].
            cols (heap s' ! new) c = cols (heap s ! initC) c)"
  using assms(2,1)
proof (rule delay_companions_result)
  assume rest: "\<And>c. c \<notin> set columns_to_update \<Longrightarrow> c \<noteq> ''tphysf'' \<Longrightarrow>
       cols (heap s' ! new) c = cols (heap s ! initC) c"
  have sec: "c \<notin> set columns_to_update \<and> c \<noteq> ''tphysf''"
    if "c \<in> set [''kstar_2'', ''mass_2'', ''mass0_2'', ''rad_2'', ''lum_2'', ''massc_2'',
                      ''radc_2'', ''menv_2'', ''renv_2'', ''omega_spin_2'', ''B_2'', ''bacc_2'',
                      ''tacc_2'', ''epoch_2'', ''tms_2'', ''bhspin_2'']" for c
    using that by (auto simp: columns_to_update_def)
  from rest sec
  show "(\<forall>c. c \<notin> set columns_to_update \<and> c \<noteq> ''tphysf'' \<longrightarrow>
            cols (heap s' ! new) c = cols (heap s ! initC) c) \<and>
         (\<forall>c \<in> set [''kstar_2'', ''mass_2'', ''mass0_2'', ''rad_2'', ''lum_2'', ''massc_2'',
                      ''radc_2'', ''menv_2'', ''renv_2'', ''omega_spin_2'', ''B_2'', ''bacc_2'',
                      ''tacc_2'', ''epoch_2'', ''tms_2'', ''bhspin_2''].
            cols (heap s' ! new) c = cols (heap s ! initC) c)"
    by blast
qed

text \<open>
  Witness for C9: \<open>mass_2\<close> of the worked example.
\<close>

theorem delay_companions_other_columns_witness:
  "snd (delay_companions example_engine example_state 0 [5, 7] () ()) = Inr (1, [1]) \<and>
   cols (heap (fst (delay_companions example_engine example_state 0 [5, 7] () ())) ! 1) ''mass_2''
     = Some [2, 1]"
proof -
  have "cols (heap example_state ! 0) ''mass_2'' = Some [2, 1]"
    by (simp add: example_input example_initC_def)
  moreover have "''mass_2'' \<notin> set columns_to_update \<and> ''mass_2'' \<noteq> ''tphysf''"
    by (simp add: columns_to_update_def)
  ultimately show ?thesis
    using delay_companions_other_columns [OF example_initC_valid example_run_pair] example_run
    by simp
qed

section \<open>The timescale estimator and the delay calculator: claims\<close>









section \<open>The estimator and the delays in binary64: claims\<close>

lemma f64_of_real_one: "f64_of_real 1 = Fin 1"
  using f64_of_real_pow2 [of 0] by simp

lemma f64_of_real_sixteen: "f64_of_real 16 = Fin 16"
  using f64_of_real_pow2 [of 4] by simp

lemma two_powr_neg2: "(2::real) powr (- 2) = 1 / 4"
proof -
  have "(2::real) powr (- 2) = inverse (2 powr 2)" by (rule powr_minus)
  also have "(2::real) powr 2 = 4" by simp
  finally show ?thesis by simp
qed

lemma f64_of_real_quarter: "f64_of_real (1 / 4) = Fin (1 / 4)"
proof -
  have "(of_int (- 2) :: real) = - 2" by simp
  with f64_of_real_pow2 [of "- 2"] have "f64_of_real (2 powr (- 2)) = Fin (2 powr (- 2))"
    by simp
  then show ?thesis by (simp only: two_powr_neg2)
qed

lemma f64_62_8_exact:
  "f64_of_real (8838314268714598 / 2 ^ 47) = Fin (8838314268714598 / 2 ^ 47)"
proof -
  let ?c = "8838314268714598 / 2 ^ 47 :: real"
  have "\<lfloor>log 2 ?c\<rfloor> = 5"
  proof (rule floor_log2_eq)
    show "2 powr of_int 5 \<le> ?c" by simp
    show "?c < 2 powr (of_int 5 + 1)" by simp
  qed
  then have "max \<lfloor>log 2 ?c\<rfloor> (- 1022) = 5" by simp
  then have "f64_quantum ?c = 2 powr (of_int 5 - 52)"
    by (simp only: f64_quantum_def)
  also have "of_int 5 - 52 = (- 47 :: real)" by simp
  also have "2 powr (- 47 :: real) = inverse (2 powr 47)" by (rule powr_minus)
  also have "(2::real) powr 47 = 2 ^ 47" by simp
  finally have q: "f64_quantum ?c = inverse (2 ^ 47)" .
  have "of_int 8838314268714598 * f64_quantum ?c = 8838314268714598 * inverse (2 ^ 47)"
    by (simp only: q of_int_numeral)
  also have "\<dots> = ?c" by (simp only: divide_inverse)
  finally have "?c = of_int 8838314268714598 * f64_quantum ?c" by (rule sym)
  then have r: "round_pos ?c = ?c" by (rule round_pos_exact)
  have "?c \<le> 2 ^ 10" by simp
  then have "?c < f64_huge" by (rule less_f64_huge)
  with r show ?thesis by (simp add: f64_of_real_def)
qed

lemma t_f64_one:
  "f64_mul (f64_of_real 62.8) (f64_pow 1 (- 2.5)) = Fin (8838314268714598 / 2 ^ 47)"
proof -
  have "f64_pow 1 (- 2.5) = f64_of_real (1 powr (- 2.5))"
    by (rule f64_pow_pos) simp
  also have "\<dots> = Fin 1" by (simp only: powr_one_eq_one f64_of_real_one)
  finally show ?thesis
    by (simp only: f64_62_8 f64_mul.simps mult_1_right f64_62_8_exact)
qed

lemma f64_le_FinE:
  assumes "f64_le (Fin 0) v" "f64_le v (Fin b)"
  obtains a where "v = Fin a" "0 \<le> a" "a \<le> b"
  using assms by (cases v) simp_all

lemma t_f64_le_one:
  assumes "1 \<le> m"
  obtains a where "f64_mul (f64_of_real 62.8) (f64_pow m (- 2.5)) = Fin a"
    "0 \<le> a" "a \<le> 8838314268714598 / 2 ^ 47"
proof -
  from assms have m: "0 < m" by simp
  have "f64_le (f64_mul (f64_of_real 62.8) (f64_pow m (- 2.5)))
               (f64_mul (f64_of_real 62.8) (f64_pow 1 (- 2.5)))"
    using assms by (intro t_f64_antimono) simp_all
  then have "f64_le (f64_mul (f64_of_real 62.8) (f64_pow m (- 2.5)))
               (Fin (8838314268714598 / 2 ^ 47))"
    by (simp only: t_f64_one)
  with t_f64_nonneg [OF m] show ?thesis
    using that by (rule f64_le_FinE)
qed

lemma t_f64_two:
  obtains y where "f64_mul (f64_of_real 62.8) (f64_pow 2 (- 2.5)) = Fin y" "0 \<le> y" "y \<le> 16"
proof -
  have "(2::real) powr (- 2.5) \<le> 2 powr (- 2)"
    by (intro powr_mono) simp_all
  also have "(2::real) powr (- 2) = 1 / 4"
    by (rule two_powr_neg2)
  finally have le: "(2::real) powr (- 2.5) \<le> 1 / 4" .
  have "f64_le (f64_of_real (2 powr (- 2.5))) (f64_of_real (1 / 4))"
    using le by (intro f64_of_real_mono) simp_all
  then have up: "f64_le (f64_of_real (2 powr (- 2.5))) (Fin (1 / 4))"
    by (simp only: f64_of_real_quarter)
  have "f64_le (Fin 0) (f64_of_real (2 powr (- 2.5)))"
    by (rule f64_of_real_nonneg) simp
  from this up obtain r where r: "f64_of_real (2 powr (- 2.5)) = Fin r" "0 \<le> r" "r \<le> 1 / 4"
    by (rule f64_le_FinE)
  let ?c = "8838314268714598 / 2 ^ 47 :: real"
  have c: "0 < ?c" "?c \<le> 64" by simp_all
  from r(2) c(1) have cr1: "0 \<le> ?c * r" by simp
  from r(2,3) c have "?c * r \<le> 64 * (1 / 4)"
    by (intro mult_mono) simp_all
  then have cr2: "?c * r \<le> 16" by simp
  note cr = cr1 cr2
  have "f64_pow 2 (- 2.5) = f64_of_real (2 powr (- 2.5))"
    by (rule f64_pow_pos) simp
  then have t: "f64_mul (f64_of_real 62.8) (f64_pow 2 (- 2.5)) = f64_of_real (?c * r)"
    by (simp only: f64_62_8 r(1) f64_mul.simps)
  have "f64_le (f64_of_real (?c * r)) (f64_of_real 16)"
    using cr by (intro f64_of_real_mono)
  then have up2: "f64_le (f64_of_real (?c * r)) (Fin 16)"
    by (simp only: f64_of_real_sixteen)
  have "f64_le (Fin 0) (f64_of_real (?c * r))"
    using cr(1) by (rule f64_of_real_nonneg)
  from this up2 obtain y where "f64_of_real (?c * r) = Fin y" "0 \<le> y" "y \<le> 16"
    by (rule f64_le_FinE)
  with t show ?thesis using that by simp
qed

lemma f64_of_real_negative:
  assumes "x \<le> - 1"
  shows "f64_less (f64_of_real x) (Fin 0)"
proof -
  have "round_pos 1 \<le> round_pos (- x)"
    using assms by (intro round_pos_mono) simp_all
  moreover have "round_pos 1 = 1"
    using round_pos_pow2 [of 0] by simp
  ultimately have "0 < round_pos (- x)" by simp
  with assms show ?thesis by (simp add: f64_of_real_def)
qed


lemma get_t_pre_ms_f64_Cons [simp]:
  "get_t_pre_ms_f64 (m # M) = f64_mul (f64_of_real 62.8) (f64_pow m (- 2.5)) # get_t_pre_ms_f64 M"
  "get_t_pre_ms_f64 [] = []"
  by (simp_all add: get_t_pre_ms_f64_def)

lemma get_delays_f64_wf:
  assumes "wf_frame initC" "cols initC ''mass_1'' = Some m1" "cols initC ''mass_2'' = Some m2"
  shows "get_delays_f64 initC = Inr (map2 f64_sub (get_t_pre_ms_f64 m2) (get_t_pre_ms_f64 m1))"
    and "length m1 = length (index initC)" and "length m2 = length (index initC)"
  using assms
  by (simp_all add: get_delays_f64_def getitem_def np_sub_f64_def wf_frame_def)

lemma get_delays_f64_one_two:
  "get_delays_f64 \<lparr>index = [0], cols = [''mass_1'' \<mapsto> [1], ''mass_2'' \<mapsto> [2]]\<rparr>
     = Inr [f64_sub (f64_mul (f64_of_real 62.8) (f64_pow 2 (- 2.5)))
                    (f64_mul (f64_of_real 62.8) (f64_pow 1 (- 2.5)))]"
  by (simp add: get_delays_f64_def getitem_def np_sub_f64_def del: getitem_Inr)






text \<open>
  Counterexample to C6 as stated (every delay is non-negative for positive masses):
  the row with \<open>mass_1 = 1\<close>, \<open>mass_2 = 2\<close> gets a negative delay (about -51.70).
\<close>

theorem get_delays_f64_negative_example:
  "get_delays_f64 \<lparr>index = [0], cols = [''mass_1'' \<mapsto> [1], ''mass_2'' \<mapsto> [2]]\<rparr>
     = Inr [f64_sub (f64_mul (f64_of_real 62.8) (f64_pow 2 (- 2.5)))
                    (f64_mul (f64_of_real 62.8) (f64_pow 1 (- 2.5)))] \<and>
   f64_less (f64_sub (f64_mul (f64_of_real 62.8) (f64_pow 2 (- 2.5)))
                     (f64_mul (f64_of_real 62.8) (f64_pow 1 (- 2.5)))) (Fin 0) \<and>
   \<not> f64_le (Fin 0) (f64_sub (f64_mul (f64_of_real 62.8) (f64_pow 2 (- 2.5)))
                              (f64_mul (f64_of_real 62.8) (f64_pow 1 (- 2.5))))"
proof -
  obtain y where y: "f64_mul (f64_of_real 62.8) (f64_pow 2 (- 2.5)) = Fin y" "0 \<le> y" "y \<le> 16"
    by (rule t_f64_two)
  let ?c = "8838314268714598 / 2 ^ 47 :: real"
  have "(17::real) \<le> ?c" by simp
  with y(3) have "y - ?c \<le> - 1" by simp
  then have neg: "f64_less (f64_of_real (y - ?c)) (Fin 0)" by (rule f64_of_real_negative)
  have d: "f64_sub (f64_mul (f64_of_real 62.8) (f64_pow 2 (- 2.5)))
                   (f64_mul (f64_of_real 62.8) (f64_pow 1 (- 2.5))) = f64_of_real (y - ?c)"
    by (simp only: y(1) t_f64_one f64_sub.simps)
  from neg have "\<not> f64_le (Fin 0) (f64_of_real (y - ?c))"
    by (cases "f64_of_real (y - ?c)") simp_all
  with neg d get_delays_f64_one_two show ?thesis by (simp only: simp_thms)
qed


lemma f64_sub_nonneg:
  assumes "f64_finite a" "f64_le (Fin 0) a" "f64_le a b"
  shows "f64_le (Fin 0) (f64_sub b a)"
proof -
  from assms(1) obtain x where a: "a = Fin x"
    by (cases a) (simp_all add: f64_finite_def)
  show ?thesis
  proof (cases b)
    case (Fin y)
    with a assms(3) have "0 \<le> y - x" by simp
    then have "f64_le (Fin 0) (f64_of_real (y - x))" by (rule f64_of_real_nonneg)
    with a Fin show ?thesis by simp
  qed (use a assms(3) in simp_all)
qed

text \<open>
  Claim C6, amended. In a table of positive masses the delay of a row is non-negative
  whenever the row's \<open>mass_2\<close> is at most its \<open>mass_1\<close> and the estimate for \<open>mass_1\<close>
  is finite (it has not overflowed). Rows whose secondary is the more massive star are
  not covered: their delay can be negative.
\<close>

theorem get_delays_f64_nonneg:
  assumes "wf_frame initC" "cols initC ''mass_1'' = Some m1" "cols initC ''mass_2'' = Some m2"
  shows "\<exists>ds. get_delays_f64 initC = Inr ds \<and> length ds = length (index initC) \<and>
           (\<forall>i < length (index initC).
              0 < m2 ! i \<and> m2 ! i \<le> m1 ! i \<and> f64_finite (get_t_pre_ms_f64 m1 ! i) \<longrightarrow>
              f64_le (Fin 0) (ds ! i))"
proof -
  note r = get_delays_f64_wf [OF assms]
  have "f64_le (Fin 0) (map2 f64_sub (get_t_pre_ms_f64 m2) (get_t_pre_ms_f64 m1) ! i)"
    if i: "i < length (index initC)"
      and h: "0 < m2 ! i" "m2 ! i \<le> m1 ! i" "f64_finite (get_t_pre_ms_f64 m1 ! i)" for i
  proof -
    from i r have l: "i < length m1" "i < length m2" by simp_all
    from h(1,2) have m1: "0 < m1 ! i" by simp
    have "f64_le (get_t_pre_ms_f64 m1 ! i) (get_t_pre_ms_f64 m2 ! i)"
      unfolding get_t_pre_ms_f64_nth [OF l(1)] get_t_pre_ms_f64_nth [OF l(2)]
      using h(1,2) by (rule t_f64_antimono)
    moreover have "f64_le (Fin 0) (get_t_pre_ms_f64 m1 ! i)"
      unfolding get_t_pre_ms_f64_nth [OF l(1)] using m1 by (rule t_f64_nonneg)
    ultimately have "f64_le (Fin 0) (f64_sub (get_t_pre_ms_f64 m2 ! i) (get_t_pre_ms_f64 m1 ! i))"
      using h(3) by (intro f64_sub_nonneg)
    with l show ?thesis by simp
  qed
  with r show ?thesis by simp
qed

text \<open>
  Witness for the amended C6: the second row of the two-row table, with
  \<open>mass_2 = 1 \<le> mass_1 = 3\<close>.
\<close>

theorem get_delays_f64_nonneg_witness:
  "wf_frame \<lparr>index = [0, 1], cols = [''mass_1'' \<mapsto> [1, 3], ''mass_2'' \<mapsto> [2, 1]]\<rparr> \<and>
   (0::real) < [2, 1] ! 1 \<and> [2, 1 :: real] ! 1 \<le> [1, 3] ! 1 \<and>
   f64_finite (get_t_pre_ms_f64 [1, 3] ! 1) \<and>
   (\<exists>ds. get_delays_f64 \<lparr>index = [0, 1], cols = [''mass_1'' \<mapsto> [1, 3], ''mass_2'' \<mapsto> [2, 1]]\<rparr>
           = Inr ds \<and> length ds = 2 \<and> f64_le (Fin 0) (ds ! 1))"
proof -
  have wf: "wf_frame \<lparr>index = [0, 1], cols = [''mass_1'' \<mapsto> [1, 3], ''mass_2'' \<mapsto> [2, 1]]\<rparr>"
    by (auto simp: wf_frame_def split: if_splits)
  obtain a where a: "f64_mul (f64_of_real 62.8) (f64_pow 3 (- 2.5)) = Fin a"
    by (rule t_f64_le_one [of 3]) simp_all
  have "get_t_pre_ms_f64 [1, 3] ! 1 = f64_mul (f64_of_real 62.8) (f64_pow ([1, 3] ! 1) (- 2.5))"
    by (rule get_t_pre_ms_f64_nth) simp
  also have "[1, 3 :: real] ! 1 = 3" by simp
  finally have "get_t_pre_ms_f64 [1, 3] ! 1 = Fin a" by (simp only: a)
  then have fin: "f64_finite (get_t_pre_ms_f64 [1, 3] ! 1)"
    by (simp only: f64_finite_def f64.case)
  from get_delays_f64_nonneg
    [of "\<lparr>index = [0, 1], cols = [''mass_1'' \<mapsto> [1, 3], ''mass_2'' \<mapsto> [2, 1]]\<rparr>"
        "[1, 3]" "[2, 1]"] wf
  obtain ds where ds:
    "get_delays_f64 \<lparr>index = [0, 1], cols = [''mass_1'' \<mapsto> [1, 3], ''mass_2'' \<mapsto> [2, 1]]\<rparr> = Inr ds"
    "length ds = 2"
    "\<forall>i < 2. 0 < [2, 1 :: real] ! i \<and> [2, 1 :: real] ! i \<le> [1, 3] ! i \<and>
        f64_finite (get_t_pre_ms_f64 [1, 3] ! i) \<longrightarrow> f64_le (Fin 0) (ds ! i)"
    by auto
  from ds(3) fin have "f64_le (Fin 0) (ds ! 1)" by simp
  with wf fin ds(1,2) show ?thesis by simp
qed


lemma f64_of_real_overflow:
  assumes "1024 \<le> k"
  shows "f64_of_real (2 powr of_int k) = PInf"
proof -
  from assms have "- 1022 \<le> k" by simp
  then have r: "round_pos (2 powr of_int k) = 2 powr of_int k" by (rule round_pos_pow2)
  from assms have "(1024 :: real) \<le> of_int k" by simp
  then have "(2::real) powr 1024 \<le> 2 powr of_int k"
    by (intro powr_mono) simp_all
  then have "\<not> 2 powr of_int k < f64_huge" by (simp only: f64_huge_powr not_less)
  with r show ?thesis by (simp add: f64_of_real_def)
qed

lemma t_f64_overflow:
  "f64_mul (f64_of_real 62.8) (f64_pow (1 / 2 ^ 500) (- 2.5)) = PInf"
proof -
  have "(1 / 2 ^ 500 :: real) = inverse (2 powr 500)"
    by (simp add: inverse_eq_divide)
  also have "\<dots> = 2 powr (- 500)" by (rule powr_minus [symmetric])
  finally have m: "(1 / 2 ^ 500 :: real) = 2 powr (- 500)" .
  have "f64_pow (1 / 2 ^ 500) (- 2.5) = f64_of_real ((1 / 2 ^ 500) powr (- 2.5))"
    by (rule f64_pow_pos) simp
  also have "(1 / 2 ^ 500 :: real) powr (- 2.5) = (2 powr (- 500)) powr (- 2.5)"
    by (simp only: m)
  also have "\<dots> = 2 powr (- 500 * (- 2.5 :: real))" by (rule powr_powr)
  also have "- 500 * (- 2.5 :: real) = of_int 1250" by simp
  also have "f64_of_real (2 powr of_int 1250) = PInf"
    by (rule f64_of_real_overflow) simp
  finally have p: "f64_pow (1 / 2 ^ 500) (- 2.5) = PInf" .
  have "f64_mul (Fin (8838314268714598 / 2 ^ 47)) PInf = PInf" by simp
  then show ?thesis by (simp only: p f64_62_8)
qed

text \<open>
  Two stars of mass \<open>2 ^ -500\<close>: both estimates overflow to infinity and the delay is NaN,
  which is not non-negative. This is why the amended C6 asks for a finite estimate.
\<close>

lemma get_delays_f64_overflow_example:
  "get_delays_f64 \<lparr>index = [0], cols = [''mass_1'' \<mapsto> [1 / 2 ^ 500], ''mass_2'' \<mapsto> [1 / 2 ^ 500]]\<rparr>
     = Inr [NaN]"
proof -
  have "get_delays_f64 \<lparr>index = [0], cols = [''mass_1'' \<mapsto> [1 / 2 ^ 500], ''mass_2'' \<mapsto> [1 / 2 ^ 500]]\<rparr>
     = Inr [f64_sub (f64_mul (f64_of_real 62.8) (f64_pow (1 / 2 ^ 500) (- 2.5)))
                    (f64_mul (f64_of_real 62.8) (f64_pow (1 / 2 ^ 500) (- 2.5)))]"
    by (simp add: get_delays_f64_def getitem_def np_sub_f64_def del: getitem_Inr)
  then show ?thesis by (simp only: t_f64_overflow f64_sub.simps)
qed

end
